theory Spec2Isabelle
  imports Complex_Main "HOL-Library.Multiset" "HOL-Library.Product_Lexorder"
begin

section \<open>JavaScript values\<close>

text \<open>
  Numbers are IEEE doubles in the program: NaN, the two infinities and the finite doubles.
  A finite double is modelled by the real number it denotes; the sign of a zero is not
  modelled. The rounding of the result of an operation is a parameter of the model (see
  \<open>round_double\<close> below).
\<close>

datatype jsnum = NaN | Fin real | PosInf | NegInf

datatype jsval =
    Undefined
  | Null
  | Bool bool
  | Num jsnum
  | Str string
  | Arr "jsval list"
  | Obj "(string \<times> jsval) list"

text \<open>ToBoolean: what \<open>!x\<close>, \<open>x || y\<close> and \<open>if (x)\<close> test.\<close>

fun truthy :: "jsval \<Rightarrow> bool" where
  "truthy Undefined = False"
| "truthy Null = False"
| "truthy (Bool b) = b"
| "truthy (Num NaN) = False"
| "truthy (Num (Fin r)) = (r \<noteq> 0)"
| "truthy (Num PosInf) = True"
| "truthy (Num NegInf) = True"
| "truthy (Str s) = (s \<noteq> [])"
| "truthy (Arr _) = True"
| "truthy (Obj _) = True"

text \<open>\<open>a || b\<close>\<close>

definition js_or :: "jsval \<Rightarrow> jsval \<Rightarrow> jsval" where
  "js_or a b = (if truthy a then a else b)"

text \<open>
  Reading a property \<open>v.k\<close> of a value other than null and undefined. The program only
  reads its own field names (date, weight, ...), which no primitive and no array has, so
  everything except an object with that key gives undefined.
\<close>

fun get_prop :: "string \<Rightarrow> jsval \<Rightarrow> jsval" where
  "get_prop k (Obj kvs) = (case map_of kvs k of Some v \<Rightarrow> v | None \<Rightarrow> Undefined)"
| "get_prop k _ = Undefined"

fun isArray :: "jsval \<Rightarrow> bool" where
  "isArray (Arr _) = True"
| "isArray _ = False"

text \<open>
  SameValueZero, the key equality of \<open>Map\<close>. Strings, numbers and booleans are compared
  by value (NaN equals NaN). Objects and arrays are compared by reference; every object
  that reaches a \<open>Map\<close> key here is a separate node of a \<open>JSON.parse\<close> result, so two of
  them are never the same reference.
\<close>

fun same_value_zero :: "jsval \<Rightarrow> jsval \<Rightarrow> bool" where
  "same_value_zero Undefined Undefined = True"
| "same_value_zero Null Null = True"
| "same_value_zero (Bool a) (Bool b) = (a = b)"
| "same_value_zero (Num a) (Num b) = (a = b)"
| "same_value_zero (Str a) (Str b) = (a = b)"
| "same_value_zero _ _ = False"

section \<open>Built-ins of the language\<close>

text \<open>
  The program calls built-in functions of JavaScript whose definitions are the
  language's, not the program's. They are parameters of the model, collected in one
  record, so that what is proved holds for the real ones: \<open>s.trim()\<close>;
  \<open>parseFloat(s)\<close>; \<open>parseInt(s, 10)\<close>; \<open>Number(s)\<close> for a string \<open>s\<close>; and
  \<open>round_double\<close>, which gives for a real number the double an operation returns when
  that number is its exact result: the nearest double, or an infinity beyond the range.
\<close>

record js_builtins =
  trim :: "string \<Rightarrow> string"
  parseFloat :: "string \<Rightarrow> jsnum"
  parseInt10 :: "string \<Rightarrow> jsnum"
  toNumber :: "string \<Rightarrow> jsnum"
  round_double :: "real \<Rightarrow> jsnum"

fun isNaN :: "jsnum \<Rightarrow> bool" where
  "isNaN NaN = True"
| "isNaN _ = False"

subsection \<open>Arithmetic and comparison of numbers\<close>

text \<open>
  The sign of a number: 1, -1, or 0 for zero and for NaN.
\<close>

fun js_sign :: "jsnum \<Rightarrow> int" where
  "js_sign NaN = 0"
| "js_sign (Fin x) = (if 0 < x then 1 else if x < 0 then - 1 else 0)"
| "js_sign PosInf = 1"
| "js_sign NegInf = - 1"

text \<open>An infinity of a given sign; the sign 0 stands for the undefined cases.\<close>

definition inf_of_sign :: "int \<Rightarrow> jsnum" where
  "inf_of_sign s = (if 0 < s then PosInf else if s < 0 then NegInf else NaN)"

text \<open>
  \<open>a * b\<close>: the rounded product of two finite numbers; NaN if an operand is NaN or if
  zero meets an infinity; otherwise the infinity of the product's sign.
\<close>

fun js_mul :: "js_builtins \<Rightarrow> jsnum \<Rightarrow> jsnum \<Rightarrow> jsnum" where
  "js_mul rt NaN b = NaN"
| "js_mul rt a NaN = NaN"
| "js_mul rt (Fin x) (Fin y) = round_double rt (x * y)"
| "js_mul rt a b = inf_of_sign (js_sign a * js_sign b)"

text \<open>
  \<open>a / b\<close>. A zero divisor is taken to be the positive zero: the divisors of the program
  are the constants 60 and 100 and a square.
\<close>

fun js_div :: "js_builtins \<Rightarrow> jsnum \<Rightarrow> jsnum \<Rightarrow> jsnum" where
  "js_div rt NaN b = NaN"
| "js_div rt a NaN = NaN"
| "js_div rt (Fin x) (Fin y) =
     (if y = 0 then inf_of_sign (js_sign (Fin x)) else round_double rt (x / y))"
| "js_div rt (Fin x) PosInf = Fin 0"
| "js_div rt (Fin x) NegInf = Fin 0"
| "js_div rt a (Fin y) = (if 0 \<le> y then a else inf_of_sign (- js_sign a))"
| "js_div rt a b = NaN"

text \<open>\<open>a - 1\<close>\<close>

fun js_minus1 :: "js_builtins \<Rightarrow> jsnum \<Rightarrow> jsnum" where
  "js_minus1 rt (Fin x) = round_double rt (x - 1)"
| "js_minus1 rt a = a"

text \<open>\<open>a < b\<close>: false when an operand is NaN.\<close>

fun js_less :: "jsnum \<Rightarrow> jsnum \<Rightarrow> bool" where
  "js_less NaN b = False"
| "js_less a NaN = False"
| "js_less (Fin x) (Fin y) = (x < y)"
| "js_less PosInf b = False"
| "js_less a PosInf = True"
| "js_less NegInf b = (b \<noteq> NegInf)"
| "js_less a NegInf = False"

text \<open>\<open>a > 0\<close> and \<open>a <= 0\<close>\<close>

definition js_gt0 :: "jsnum \<Rightarrow> bool" where
  "js_gt0 a = js_less (Fin 0) a"

fun js_le0 :: "jsnum \<Rightarrow> bool" where
  "js_le0 (Fin x) = (x \<le> 0)"
| "js_le0 NegInf = True"
| "js_le0 _ = False"

section \<open>Log entries and the application state\<close>

text \<open>
  The objects the application itself puts into \<open>entries\<close> (the entry form and the
  restore function) have exactly these five properties.
\<close>

record entry =
  date :: jsval
  weight :: jsval
  activityType :: jsval
  notes_field :: jsval
  durationMinutes :: jsval

text \<open>
  The module state: the two global variables and what \<open>saveEntries\<close> and
  \<open>saveSettings\<close> last wrote under the two storage keys (the value handed to
  \<open>JSON.stringify\<close>).
\<close>

record app_state =
  entries :: "entry list"
  userSettings :: jsval
  storedEntries :: "entry list option"
  storedSettings :: "jsval option"

definition saveEntries :: "entry list \<Rightarrow> app_state \<Rightarrow> app_state" where
  "saveEntries list st = st\<lparr>storedEntries := Some list\<rparr>"

definition saveSettings :: "jsval \<Rightarrow> app_state \<Rightarrow> app_state" where
  "saveSettings settings st = st\<lparr>storedSettings := Some settings\<rparr>"

section \<open>The merge map of the restore function\<close>

text \<open>
  A \<open>Map\<close> keeps its keys in insertion order; \<open>set\<close> on a key that is already there
  replaces the value in place, and \<open>values()\<close> lists the values in key order.
\<close>

type_synonym logs_map = "(jsval \<times> entry) list"

fun map_set :: "logs_map \<Rightarrow> jsval \<Rightarrow> entry \<Rightarrow> logs_map" where
  "map_set [] k v = [(k, v)]"
| "map_set ((k', v') # m) k v =
     (if same_value_zero k' k then (k', v) # m else (k', v') # map_set m k v)"

definition map_values :: "logs_map \<Rightarrow> entry list" where
  "map_values m = map snd m"

text \<open>\<open>entries.forEach((e) => logsMap.set(e.date, e))\<close> on a new map.\<close>

definition existing_map :: "entry list \<Rightarrow> logs_map" where
  "existing_map es = foldl (\<lambda>m e. map_set m (date e) e) [] es"

text \<open>The two coercions of the loop body.\<close>

definition coerce_weight :: "js_builtins \<Rightarrow> jsval \<Rightarrow> jsval" where
  "coerce_weight rt w =
     (case w of
        Num n \<Rightarrow> Num n
      | Str s \<Rightarrow>
          (if trim rt s \<noteq> [] \<and> \<not> isNaN (parseFloat rt s) then Num (parseFloat rt s)
           else Null)
      | _ \<Rightarrow> Null)"

definition coerce_duration :: "js_builtins \<Rightarrow> jsval \<Rightarrow> jsval" where
  "coerce_duration rt d =
     (case d of
        Num n \<Rightarrow> Num n
      | Str s \<Rightarrow>
          (if trim rt s \<noteq> [] \<and> \<not> isNaN (parseInt10 rt (trim rt s))
           then Num (parseInt10 rt (trim rt s))
           else Null)
      | _ \<Rightarrow> Null)"

text \<open>The object literal that the loop body stores for one imported record.\<close>

definition imported_entry :: "js_builtins \<Rightarrow> jsval \<Rightarrow> entry" where
  "imported_entry rt inLog =
     \<lparr> date = get_prop ''date'' inLog,
       weight = coerce_weight rt (get_prop ''weight'' inLog),
       activityType = js_or (get_prop ''activityType'' inLog) (Str []),
       notes_field = js_or (get_prop ''notes'' inLog) (Str []),
       durationMinutes = coerce_duration rt (get_prop ''durationMinutes'' inLog) \<rparr>"

text \<open>The body of \<open>parsed.logs.forEach\<close>.\<close>

definition import_log :: "js_builtins \<Rightarrow> logs_map \<Rightarrow> jsval \<Rightarrow> logs_map" where
  "import_log rt m inLog =
     (if \<not> truthy inLog \<or> \<not> truthy (get_prop ''date'' inLog) then m
      else map_set m (get_prop ''date'' inLog) (imported_entry rt inLog))"

definition merged_entries :: "js_builtins \<Rightarrow> entry list \<Rightarrow> jsval list \<Rightarrow> entry list" where
  "merged_entries rt es logs = map_values (foldl (import_log rt) (existing_map es) logs)"

section \<open>Restoring a backup\<close>

datatype ui_event =
    AlertMalformedJson
  | AlertRestoreDone nat
  | UncaughtTypeError

text \<open>
  \<open>restoreFullBackupJsonFromText\<close>. Besides the built-ins of the record, two more are
  parameters: \<open>JSON_parse\<close> (\<open>None\<close> when \<open>JSON.parse\<close> throws) and \<open>sort_newest\<close>,
  the call \<open>entries.sort((a, b) => new Date(b.date) - new Date(a.date))\<close>, whose order
  depends on the host's date parser and which returns some rearrangement of the array.
  Reading \<open>parsed.userSettings\<close> when the text is the JSON literal \<open>null\<close> throws a
  TypeError that nothing catches.
\<close>

definition restoreFullBackupJsonFromText ::
  "(string \<Rightarrow> jsval option) \<Rightarrow> (entry list \<Rightarrow> entry list) \<Rightarrow> js_builtins \<Rightarrow> string
     \<Rightarrow> app_state \<Rightarrow> app_state \<times> ui_event" where
  "restoreFullBackupJsonFromText JSON_parse sort_newest rt jsonText st =
     (case JSON_parse jsonText of
        None \<Rightarrow> (st, AlertMalformedJson)
      | Some parsed \<Rightarrow>
          (if parsed = Null \<or> parsed = Undefined then (st, UncaughtTypeError)
           else
             let st1 = (if truthy (get_prop ''userSettings'' parsed)
                        then saveSettings (get_prop ''userSettings'' parsed)
                               (st\<lparr>userSettings := get_prop ''userSettings'' parsed\<rparr>)
                        else st);
                 st2 = (case get_prop ''logs'' parsed of
                          Arr logs \<Rightarrow>
                            saveEntries (sort_newest (merged_entries rt (entries st1) logs))
                              (st1\<lparr>entries :=
                                     sort_newest (merged_entries rt (entries st1) logs)\<rparr>)
                        | _ \<Rightarrow> st1)
             in (st2, AlertRestoreDone (length (entries st2)))))"

text \<open>
  The entry form's submit handler, from the point where the field values have been read
  and checked: it builds \<open>newEntry\<close>, drops the entry of the same date, appends and saves.
\<close>

definition submit_entry ::
  "string \<Rightarrow> jsval \<Rightarrow> jsval \<Rightarrow> jsval \<Rightarrow> jsval \<Rightarrow> app_state \<Rightarrow> app_state" where
  "submit_entry dateVal weightVal activityVal notesVal duration st =
     (let newEntry = \<lparr> date = Str dateVal, weight = weightVal, activityType = activityVal,
                        notes_field = notesVal, durationMinutes = duration \<rparr>;
          es = filter (\<lambda>e. date e \<noteq> Str dateVal) (entries st) @ [newEntry]
      in saveEntries es (st\<lparr>entries := es\<rparr>))"

section \<open>The one-entry-per-date invariant\<close>

text \<open>
  No two entries of the list have the same date, in the sense in which the program
  compares dates as keys.
\<close>

fun unique_dates :: "entry list \<Rightarrow> bool" where
  "unique_dates [] = True"
| "unique_dates (e # es) =
     ((\<forall>e' \<in> set es. \<not> same_value_zero (date e) (date e')) \<and> unique_dates es)"

fun is_primitive :: "jsval \<Rightarrow> bool" where
  "is_primitive (Arr _) = False"
| "is_primitive (Obj _) = False"
| "is_primitive _ = True"

text \<open>The operations that change the entry store.\<close>

datatype store_op =
    AddOrReplace string jsval jsval jsval jsval
  | MergeImport string

fun apply_store_op ::
  "(string \<Rightarrow> jsval option) \<Rightarrow> (entry list \<Rightarrow> entry list) \<Rightarrow> js_builtins \<Rightarrow> app_state
     \<Rightarrow> store_op \<Rightarrow> app_state" where
  "apply_store_op JSON_parse sort_newest rt st (AddOrReplace d w a n m) =
     submit_entry d w a n m st"
| "apply_store_op JSON_parse sort_newest rt st (MergeImport jsonText) =
     fst (restoreFullBackupJsonFromText JSON_parse sort_newest rt jsonText st)"

text \<open>The dates of the records that the restore loop does not skip.\<close>

definition imported_dates :: "jsval list \<Rightarrow> jsval list" where
  "imported_dates logs =
     map (get_prop ''date'') (filter (\<lambda>l. truthy l \<and> truthy (get_prop ''date'' l)) logs)"

text \<open>
  What the merge map satisfies at every step: each value is filed under its own date, and
  no two values have the same date.
\<close>

definition map_inv :: "logs_map \<Rightarrow> bool" where
  "map_inv m = ((\<forall>(k, v)\<in>set m. date v = k) \<and> unique_dates (map snd m))"

section \<open>Loading from local storage\<close>

text \<open>
  \<open>localStorage.getItem\<close> gives \<open>None\<close> (null) for a missing key. The body of each
  \<open>try\<close> block is a function into a sum, with \<open>Inl\<close> for a thrown error; the function
  itself is the body under its \<open>catch\<close>, paired with whether \<open>console.error\<close> was
  called.
\<close>

datatype js_error = SyntaxError | TypeError






section \<open>Exporting a backup\<close>

text \<open>An entry as the object it is.\<close>

definition entry_json :: "entry \<Rightarrow> jsval" where
  "entry_json e =
     Obj [(''date'', date e), (''weight'', weight e), (''activityType'', activityType e),
          (''notes'', notes_field e), (''durationMinutes'', durationMinutes e)]"

text \<open>The object \<open>data\<close> of \<open>exportFullBackupJson\<close>; \<open>exportedAt\<close> is the clock's ISO string.\<close>

definition backup_data :: "string \<Rightarrow> app_state \<Rightarrow> jsval" where
  "backup_data exportedAt st =
     Obj [(''version'', Num (Fin 1)), (''exportedAt'', Str exportedAt),
          (''userSettings'', userSettings st), (''logs'', Arr (map entry_json (entries st)))]"

text \<open>
  The text that \<open>exportFullBackupJson\<close> hands to \<open>smartExport\<close>; \<open>JSON.stringify\<close> is a
  parameter.
\<close>

definition exportFullBackupJson :: "(jsval \<Rightarrow> string) \<Rightarrow> string \<Rightarrow> app_state \<Rightarrow> string" where
  "exportFullBackupJson JSON_stringify exportedAt st = JSON_stringify (backup_data exportedAt st)"

text \<open>
  An entry shaped as the data model has it: a non-empty date string, a weight and a
  duration that are a finite number or null, an activity and notes that are strings.
\<close>

fun num_or_null :: "jsval \<Rightarrow> bool" where
  "num_or_null Null = True"
| "num_or_null (Num (Fin r)) = True"
| "num_or_null _ = False"

fun is_string :: "jsval \<Rightarrow> bool" where
  "is_string (Str s) = True"
| "is_string _ = False"

definition entry_shaped :: "entry \<Rightarrow> bool" where
  "entry_shaped e =
     (is_string (date e) \<and> truthy (date e) \<and> num_or_null (weight e) \<and>
      is_string (activityType e) \<and> is_string (notes_field e) \<and> num_or_null (durationMinutes e))"

section \<open>Metrics: latest weight and calories\<close>

text \<open>\<open>typeof v === "number" && !isNaN(v)\<close>: the number, if \<open>v\<close> is one.\<close>

fun number_of :: "jsval \<Rightarrow> jsnum option" where
  "number_of (Num n) = (if isNaN n then None else Some n)"
| "number_of _ = None"

text \<open>
  \<open>getLatestWeightUpToDate\<close>. The relational operator \<open>>\<close> on two dates is the
  parameter \<open>js_gt\<close>. The result is \<open>None\<close> for null; the only values assigned to
  \<open>latestWeight\<close> are weights that passed the number test.
\<close>

definition latest_step ::
  "(jsval \<Rightarrow> jsval \<Rightarrow> bool) \<Rightarrow> jsval \<Rightarrow> jsnum option \<times> jsval \<Rightarrow> entry
     \<Rightarrow> jsnum option \<times> jsval" where
  "latest_step js_gt limitDateStr acc entry =
     (case number_of (weight entry) of
        None \<Rightarrow> acc
      | Some w \<Rightarrow>
          (if truthy limitDateStr \<and> js_gt (date entry) limitDateStr then acc
           else if \<not> truthy (snd acc) \<or> js_gt (date entry) (snd acc) then (Some w, date entry)
           else acc))"

definition getLatestWeightUpToDate ::
  "(jsval \<Rightarrow> jsval \<Rightarrow> bool) \<Rightarrow> entry list \<Rightarrow> jsval \<Rightarrow> jsnum option" where
  "getLatestWeightUpToDate js_gt es limitDateStr =
     fst (foldl (latest_step js_gt limitDateStr) (None, Null) es)"

text \<open>
  The activity labels of the \<open>switch\<close>, as UTF-8 bytes: walking, running, cycling; the
  labels for gym and other fall to the default.
\<close>

definition label_walking :: string where
  "label_walking = [CHR 0xD7, CHR 0x94, CHR 0xD7, CHR 0x9C, CHR 0xD7, CHR 0x99, CHR 0xD7, CHR 0x9B,
                    CHR 0xD7, CHR 0x94]"

definition label_running :: string where
  "label_running = [CHR 0xD7, CHR 0xA8, CHR 0xD7, CHR 0x99, CHR 0xD7, CHR 0xA6, CHR 0xD7, CHR 0x94]"

definition label_cycling :: string where
  "label_cycling = [CHR 0xD7, CHR 0xA8, CHR 0xD7, CHR 0x9B, CHR 0xD7, CHR 0x99, CHR 0xD7, CHR 0x91,
                    CHR 0xD7, CHR 0x94]"

definition getMetForActivity :: "jsval \<Rightarrow> real" where
  "getMetForActivity activity =
     (if activity = Str label_walking then 4
      else if activity = Str label_running then 10
      else if activity = Str label_cycling then 8
      else 5)"

text \<open>\<open>calculateEntryCalories\<close>; \<open>None\<close> is null.\<close>

definition calculateEntryCalories ::
  "js_builtins \<Rightarrow> (jsval \<Rightarrow> jsval \<Rightarrow> bool) \<Rightarrow> entry list \<Rightarrow> entry \<Rightarrow> jsnum option" where
  "calculateEntryCalories rt js_gt es entry =
     (case number_of (durationMinutes entry) of
        None \<Rightarrow> None
      | Some duration \<Rightarrow>
          (if duration = Fin 0 \<or> js_le0 duration then None
           else
             (case (case number_of (weight entry) of
                      Some w \<Rightarrow> Some w
                    | None \<Rightarrow> getLatestWeightUpToDate js_gt es (date entry)) of
                None \<Rightarrow> None
              | Some weightToUse \<Rightarrow>
                  (if weightToUse = Fin 0 \<or> isNaN weightToUse \<or> js_le0 weightToUse then None
                   else
                     let met = getMetForActivity (js_or (activityType entry) (Str []));
                         calories = js_mul rt (js_mul rt (Fin met) weightToUse)
                                      (js_div rt duration (Fin 60))
                     in if js_gt0 calories then Some calories else None))))"

text \<open>
  The weight that \<open>calculateEntryCalories\<close> computes with: the entry's own weight when it
  is a number, otherwise the latest weight up to the entry's date.
\<close>

definition weight_used ::
  "(jsval \<Rightarrow> jsval \<Rightarrow> bool) \<Rightarrow> entry list \<Rightarrow> entry \<Rightarrow> jsnum option" where
  "weight_used js_gt es entry =
     (case number_of (weight entry) of
        Some w \<Rightarrow> Some w
      | None \<Rightarrow> getLatestWeightUpToDate js_gt es (date entry))"

section \<open>Dates\<close>

text \<open>
  A \<open>Date\<close> object is read and written by the program in local time and only through
  its calendar fields, so it is modelled by them: the year, the month index (0 to 11, as
  \<open>getMonth\<close>), the day of the month and the milliseconds since local midnight; or it is
  the invalid date, whose fields are NaN. Daylight-saving shifts are outside the model.
\<close>

datatype jsdate = InvalidDate | LocalDate int nat nat nat

definition leap_year :: "int \<Rightarrow> bool" where
  "leap_year y = (y mod 4 = 0 \<and> (y mod 100 \<noteq> 0 \<or> y mod 400 = 0))"

definition days_in_month :: "int \<Rightarrow> nat \<Rightarrow> nat" where
  "days_in_month y mi =
     (if mi = 1 then (if leap_year y then 29 else 28)
      else if mi = 3 \<or> mi = 5 \<or> mi = 8 \<or> mi = 10 then 30
      else 31)"

text \<open>
  The time range of a \<open>Date\<close>: a hundred million days to either side of 1 January 1970,
  that is from 20 April of the year -271821 to 13 September of the year 275760. A date
  beyond it is the invalid date. The zone offset at the two ends is not modelled.
\<close>

fun time_clip :: "jsdate \<Rightarrow> jsdate" where
  "time_clip InvalidDate = InvalidDate"
| "time_clip (LocalDate y mi d ms) =
     (if (- 271821, 3, 20) \<le> (y, mi, d) \<and> (y, mi, d) \<le> (275760, 8, 13)
      then LocalDate y mi d ms else InvalidDate)"

text \<open>One calendar day back and one forth, within the calendar.\<close>

fun day_before :: "jsdate \<Rightarrow> jsdate" where
  "day_before InvalidDate = InvalidDate"
| "day_before (LocalDate y mi d ms) =
     (if 1 < d then LocalDate y mi (d - 1) ms
      else if 0 < mi then LocalDate y (mi - 1) (days_in_month y (mi - 1)) ms
      else LocalDate (y - 1) 11 31 ms)"

fun day_after :: "jsdate \<Rightarrow> jsdate" where
  "day_after InvalidDate = InvalidDate"
| "day_after (LocalDate y mi d ms) =
     (if d < days_in_month y mi then LocalDate y mi (d + 1) ms
      else if mi < 11 then LocalDate y (mi + 1) 1 ms
      else LocalDate (y + 1) 0 1 ms)"

text \<open>\<open>d.setDate(d.getDate() - 1)\<close>\<close>

definition prev_day :: "jsdate \<Rightarrow> jsdate" where
  "prev_day dt = time_clip (day_before dt)"

definition add_days :: "int \<Rightarrow> jsdate \<Rightarrow> jsdate" where
  "add_days n dt = (if 0 \<le> n then (day_after ^^ nat n) dt else (day_before ^^ nat (- n)) dt)"

text \<open>Truncation of a number towards zero, as the \<open>Date\<close> constructor does.\<close>

definition trunc :: "real \<Rightarrow> int" where
  "trunc x = (if 0 \<le> x then \<lfloor>x\<rfloor> else \<lceil>x\<rceil>)"

text \<open>
  \<open>new Date(y, m, d)\<close>: invalid if an argument is not finite; a year from 0 to 99 means
  1900 plus that; months beyond the year and days beyond the month carry over.
\<close>

fun new_Date :: "jsnum \<Rightarrow> jsnum \<Rightarrow> jsnum \<Rightarrow> jsdate" where
  "new_Date (Fin y) (Fin m) (Fin d) =
     (let y1 = trunc y;
          y2 = (if 0 \<le> y1 \<and> y1 \<le> 99 then 1900 + y1 else y1);
          m1 = trunc m
      in time_clip (add_days (trunc d - 1) (LocalDate (y2 + m1 div 12) (nat (m1 mod 12)) 1 0)))"
| "new_Date _ _ _ = InvalidDate"

text \<open>Decimal numerals, as \<open>String(n)\<close> writes an integer.\<close>

fun show_nat :: "nat \<Rightarrow> string" where
  "show_nat n =
     (if n < 10 then [char_of (48 + n)] else show_nat (n div 10) @ [char_of (48 + n mod 10)])"

declare show_nat.simps [simp del]

definition show_int :: "int \<Rightarrow> string" where
  "show_int i = (if i < 0 then CHR ''-'' # show_nat (nat (- i)) else show_nat (nat i))"

text \<open>\<open>s.padStart(2, "0")\<close>\<close>

definition padStart2 :: "string \<Rightarrow> string" where
  "padStart2 s = replicate (2 - length s) (CHR ''0'') @ s"

fun formatDateToYMD :: "jsdate \<Rightarrow> string" where
  "formatDateToYMD InvalidDate = ''NaN-NaN-NaN''"
| "formatDateToYMD (LocalDate y mi d ms) =
     show_int y @ ''-'' @ padStart2 (show_nat (mi + 1)) @ ''-'' @ padStart2 (show_nat d)"

text \<open>\<open>s.split("-")\<close>\<close>

fun split_dash :: "string \<Rightarrow> string list" where
  "split_dash [] = [[]]"
| "split_dash (c # cs) =
     (if c = CHR ''-'' then [] # split_dash cs
      else (case split_dash cs of p # ps \<Rightarrow> (c # p) # ps | [] \<Rightarrow> [[c]]))"

text \<open>An element of a destructured array: undefined, so NaN as a number, when missing.\<close>

definition nth_number :: "jsnum list \<Rightarrow> nat \<Rightarrow> jsnum" where
  "nth_number xs i = (if i < length xs then xs ! i else NaN)"

text \<open>
  \<open>dateFromYMD\<close>; \<open>now\<close> is \<open>new Date()\<close>. A truthy value that is not a string has no
  \<open>split\<close> method: the call throws a TypeError.
\<close>

definition dateFromYMD :: "js_builtins \<Rightarrow> jsdate \<Rightarrow> jsval \<Rightarrow> js_error + jsdate" where
  "dateFromYMD rt now ymd =
     (if \<not> truthy ymd then Inr now
      else case ymd of
             Str s \<Rightarrow>
               (let parts = map (toNumber rt) (split_dash s)
                in Inr (new_Date (nth_number parts 0) (js_minus1 rt (nth_number parts 1))
                          (nth_number parts 2)))
           | _ \<Rightarrow> Inl TypeError)"

definition getTodayDateString :: "jsdate \<Rightarrow> string" where
  "getTodayDateString now = formatDateToYMD now"

section \<open>Sorting by date\<close>

text \<open>
  What a call can come to: it returns a value, it throws, it never returns, or its result
  depends on the host (the order \<open>Array.prototype.sort\<close> produces for a comparator that
  is not consistent is implementation-defined).
\<close>

datatype 'a computed = Returns 'a | Throws js_error | NeverReturns | HostDefined

text \<open>The fields of a valid date in the order that compares two of them in time.\<close>

fun date_key :: "js_error + jsdate \<Rightarrow> int \<times> nat \<times> nat \<times> nat" where
  "date_key (Inr (LocalDate y mi d ms)) = (y, mi, d, ms)"
| "date_key _ = (0, 0, 0, 0)"

text \<open>
  \<open>xs.sort((a, b) => dateFromYMD(a.date) - dateFromYMD(b.date))\<close> and, with
  \<open>descending\<close>, the call with \<open>a\<close> and \<open>b\<close> exchanged. An array of fewer than two
  elements is returned without a call of the comparator. Otherwise every element is
  compared at least once, so a date that makes \<open>dateFromYMD\<close> throw makes the sort throw.
  The comparator's NaN for an invalid date counts as 0: when all the valid dates are
  equal the comparator says that all elements are equal and the sort, which is stable,
  changes nothing; when they are not, the comparator is inconsistent and the order is the
  host's. With valid dates only, the result is the stable sort by time.
\<close>

definition sort_by_date ::
  "bool \<Rightarrow> js_builtins \<Rightarrow> jsdate \<Rightarrow> ('a \<Rightarrow> jsval) \<Rightarrow> 'a list \<Rightarrow> 'a list computed" where
  "sort_by_date descending rt now date_of xs =
     (if length xs \<le> 1 then Returns xs
      else if list_ex (\<lambda>x. dateFromYMD rt now (date_of x) = Inl TypeError) xs
      then Throws TypeError
      else if list_ex (\<lambda>x. dateFromYMD rt now (date_of x) = Inr InvalidDate) xs then
        (if list_all (\<lambda>x. list_all (\<lambda>y. dateFromYMD rt now (date_of x) = Inr InvalidDate \<or>
                dateFromYMD rt now (date_of y) = Inr InvalidDate \<or>
                dateFromYMD rt now (date_of x) = dateFromYMD rt now (date_of y)) xs) xs
         then Returns xs else HostDefined)
      else if descending then
        Returns (rev (sort_key (\<lambda>x. date_key (dateFromYMD rt now (date_of x))) (rev xs)))
      else Returns (sort_key (\<lambda>x. date_key (dateFromYMD rt now (date_of x))) xs))"

section \<open>Body mass index\<close>

text \<open>\<open>typeof e.weight === "number" && !isNaN(e.weight)\<close>\<close>

definition has_weight :: "entry \<Rightarrow> bool" where
  "has_weight e = (number_of (weight e) \<noteq> None)"

text \<open>The weight of an entry that passed that test.\<close>

definition the_weight :: "entry \<Rightarrow> jsnum" where
  "the_weight e = (case number_of (weight e) of Some w \<Rightarrow> w | None \<Rightarrow> NaN)"

text \<open>The four category labels: underweight, normal range, overweight, obese.\<close>

datatype bmi_category = Underweight | NormalRange | Overweight | Obese

definition bmi_category_of :: "jsnum \<Rightarrow> bmi_category" where
  "bmi_category_of bmi =
     (if js_less bmi (Fin 18.5) then Underweight
      else if js_less bmi (Fin 25) then NormalRange
      else if js_less bmi (Fin 30) then Overweight
      else Obese)"

text \<open>
  \<open>userSettings.heightCm\<close> where the settings are truthy and the height is a number that
  is not NaN and is greater than 0; \<open>None\<close> where the guard of \<open>calculateCurrentBmi\<close>
  returns null.
\<close>

definition usable_height :: "jsval \<Rightarrow> jsnum option" where
  "usable_height settings =
     (if \<not> truthy settings then None
      else case number_of (get_prop ''heightCm'' settings) of
             None \<Rightarrow> None
           | Some h \<Rightarrow> (if js_le0 h then None else Some h))"

text \<open>\<open>calculateCurrentBmi\<close>; \<open>None\<close> is null.\<close>

definition calculateCurrentBmi ::
  "js_builtins \<Rightarrow> jsdate \<Rightarrow> app_state \<Rightarrow> (jsnum \<times> bmi_category) option computed" where
  "calculateCurrentBmi rt now st =
     (if entries st = [] then Returns None
      else
        (case usable_height (userSettings st) of
           None \<Rightarrow> Returns None
         | Some heightCm \<Rightarrow>
             (if filter has_weight (entries st) = [] then Returns None
              else
                (case sort_by_date False rt now date (filter has_weight (entries st)) of
                   Returns sortedByDate \<Rightarrow>
                     (let latest = last sortedByDate;
                          heightM = js_div rt heightCm (Fin 100);
                          bmi = js_div rt (the_weight latest) (js_mul rt heightM heightM)
                      in Returns (Some (bmi, bmi_category_of bmi)))
                 | Throws e \<Rightarrow> Throws e
                 | NeverReturns \<Rightarrow> NeverReturns
                 | HostDefined \<Rightarrow> HostDefined))))"

section \<open>The current streak\<close>

text \<open>\<open>new Set(values)\<close>, as the list of its elements in insertion order.\<close>

definition set_add :: "jsval list \<Rightarrow> jsval \<Rightarrow> jsval list" where
  "set_add xs v = (if list_ex (\<lambda>x. same_value_zero x v) xs then xs else xs @ [v])"

definition new_Set :: "jsval list \<Rightarrow> jsval list" where
  "new_Set vs = foldl set_add [] vs"

text \<open>
  The \<open>while (true)\<close> loop: one day back, and on while that day's string is in the set.
  \<open>None\<close> is the loop that never leaves.
\<close>

partial_function (option) streak_loop :: "jsval list \<Rightarrow> jsdate \<Rightarrow> nat \<Rightarrow> nat option" where
  "streak_loop uniqueDates cursor streak =
     (if list_ex (\<lambda>x. same_value_zero x (Str (formatDateToYMD (prev_day cursor)))) uniqueDates
      then streak_loop uniqueDates (prev_day cursor) (Suc streak)
      else Some streak)"

text \<open>
  \<open>calculateCurrentStreak\<close>; \<open>now\<close> is \<open>new Date()\<close>. The unused \<open>diffDays\<close> is kept
  for the call of \<open>dateFromYMD\<close> in it, which can throw.
\<close>

definition calculateCurrentStreak :: "js_builtins \<Rightarrow> jsdate \<Rightarrow> app_state \<Rightarrow> nat computed" where
  "calculateCurrentStreak rt now st =
     (if entries st = [] then Returns 0
      else
        (let uniqueDates = new_Set (map date (entries st)) in
         case sort_by_date True rt now (\<lambda>d. d) uniqueDates of
           Returns sortedDatesDesc \<Rightarrow>
             (let todayStr = getTodayDateString now;
                  yesterdayStr = formatDateToYMD (prev_day now);
                  mostRecentLogDate = hd sortedDatesDesc
              in case dateFromYMD rt now mostRecentLogDate of
                   Inl e \<Rightarrow> Throws e
                 | Inr mostRecentDateObj \<Rightarrow>
                     (if mostRecentLogDate \<noteq> Str todayStr \<and> mostRecentLogDate \<noteq> Str yesterdayStr
                      then Returns 0
                      else (case streak_loop uniqueDates mostRecentDateObj 1 of
                              None \<Rightarrow> NeverReturns
                            | Some streak \<Rightarrow> Returns streak)))
         | Throws e \<Rightarrow> Throws e
         | NeverReturns \<Rightarrow> NeverReturns
         | HostDefined \<Rightarrow> HostDefined))"

subsection \<open>Calendar days and their strings\<close>

text \<open>
  A calendar day: a valid date at local midnight. The date strings of the program name
  years of more than two digits (a shorter year is not read back as written), and the
  years up to 275759 lie within the time range of a \<open>Date\<close>.
\<close>

fun calendar_day :: "jsdate \<Rightarrow> bool" where
  "calendar_day InvalidDate = False"
| "calendar_day (LocalDate y mi d ms) =
     (100 \<le> y \<and> y \<le> 275759 \<and> mi < 12 \<and> 1 \<le> d \<and> d \<le> days_in_month y mi \<and> ms = 0)"

text \<open>The day of a date: the date at local midnight.\<close>

fun at_midnight :: "jsdate \<Rightarrow> jsdate" where
  "at_midnight InvalidDate = InvalidDate"
| "at_midnight (LocalDate y mi d ms) = LocalDate y mi d 0"

text \<open>The string the entry form stores for a day.\<close>

definition ymd_of :: "jsdate \<Rightarrow> jsval" where
  "ymd_of c = Str (formatDateToYMD c)"

text \<open>The day \<open>k\<close> days before a date.\<close>

definition days_before :: "nat \<Rightarrow> jsdate \<Rightarrow> jsdate" where
  "days_before k c = (prev_day ^^ k) (at_midnight c)"

text \<open>
  A string of decimal digits and the number it denotes. \<open>Number(s)\<close> of such a string is
  that number, which is a double when the string has at most 15 digits.
\<close>

definition is_digit :: "char \<Rightarrow> bool" where
  "is_digit c = (48 \<le> (of_char c :: nat) \<and> (of_char c :: nat) \<le> 57)"

definition digits_val :: "string \<Rightarrow> nat" where
  "digits_val ds = foldl (\<lambda>acc c. 10 * acc + (of_char c - 48)) 0 ds"

text \<open>
  What the streak needs of the built-ins: \<open>Number\<close> reads a string of up to 15 decimal
  digits as the number it denotes, and a difference that is a natural number below 12 is
  a double.
\<close>

definition reads_numerals :: "js_builtins \<Rightarrow> bool" where
  "reads_numerals rt =
     ((\<forall>ds. ds \<noteq> [] \<and> list_all is_digit ds \<and> length ds \<le> 15 \<longrightarrow>
          toNumber rt ds = Fin (real (digits_val ds))) \<and>
      (\<forall>n<12. round_double rt (real n) = Fin (real n)))"

text \<open>
  The current time as the streak is stated for it: a valid date, at any time of the day,
  in a year from 1970 on.
\<close>

fun clock_date :: "jsdate \<Rightarrow> bool" where
  "clock_date InvalidDate = False"
| "clock_date (LocalDate y mi d ms) =
     (1970 \<le> y \<and> y \<le> 275759 \<and> mi < 12 \<and> 1 \<le> d \<and> d \<le> days_in_month y mi)"

fun year_of :: "jsdate \<Rightarrow> int" where
  "year_of InvalidDate = 0"
| "year_of (LocalDate y mi d ms) = y"

text \<open>A number that grows with the day, for the induction over the loop.\<close>

fun day_measure :: "jsdate \<Rightarrow> nat" where
  "day_measure InvalidDate = 0"
| "day_measure (LocalDate y mi d ms) = nat (y - 100) * 400 + mi * 32 + d"

text \<open>The values of a set of dates are strings that name calendar days.\<close>

definition proper_dates :: "jsval list \<Rightarrow> bool" where
  "proper_dates D = (\<forall>x\<in>set D. \<exists>c. calendar_day c \<and> x = Str (formatDateToYMD c))"

section \<open>Example data\<close>

text \<open>
  A small store, some backups and stand-ins for the built-ins that agree with them on the
  texts and numbers of the examples: \<open>example_parse\<close> knows the texts used and rejects
  every other text; \<open>example_builtins\<close> trims a string without white space, reads the
  literal 79.5 and runs of decimal digits, and rounds a number that is a double.
\<close>

definition example_old_entry :: entry where
  "example_old_entry =
     \<lparr> date = Str ''2024-01-01'', weight = Num (Fin 80), activityType = Str [],
       notes_field = Str ''x'', durationMinutes = Null \<rparr>"

definition example_other_entry :: entry where
  "example_other_entry =
     \<lparr> date = Str ''2024-01-08'', weight = Num (Fin 78), activityType = Str [],
       notes_field = Str [], durationMinutes = Null \<rparr>"

definition example_settings :: jsval where
  "example_settings =
     Obj [(''firstName'', Str ''Dana''), (''heightCm'', Num (Fin 200)),
          (''weighInDay'', Null), (''profilePicUrl'', Str [])]"

definition example_state :: app_state where
  "example_state =
     \<lparr> entries = [example_old_entry, example_other_entry], userSettings = example_settings,
       storedEntries = None, storedSettings = None \<rparr>"

definition example_backup :: jsval where
  "example_backup =
     Obj [(''logs'', Arr [Obj [(''date'', Str ''2024-01-01''), (''weight'', Str ''79.5'')]])]"

definition settings_only_backup :: jsval where
  "settings_only_backup =
     Obj [(''userSettings'', Obj [(''firstName'', Num (Fin 7))]), (''logs'', Str ''none'')]"

definition falsy_settings_backup :: jsval where
  "falsy_settings_backup = Obj [(''userSettings'', Bool False), (''logs'', Null)]"

text \<open>A backup whose two records have numbers for dates.\<close>

definition numeric_dates_backup :: jsval where
  "numeric_dates_backup =
     Obj [(''logs'', Arr [Obj [(''date'', Num (Fin 5)), (''weight'', Num (Fin 80))],
                          Obj [(''date'', Num (Fin 6)), (''weight'', Num (Fin 81))]])]"

definition example_parse :: "string \<Rightarrow> jsval option" where
  "example_parse s =
     (if s = ''backup'' then Some example_backup
      else if s = ''settings only'' then Some settings_only_backup
      else if s = ''falsy settings'' then Some falsy_settings_backup
      else if s = ''numeric dates'' then Some numeric_dates_backup
      else if s = ''stored entries'' then Some (Arr [Num (Fin 1), Null])
      else None)"

definition example_toNumber :: "string \<Rightarrow> jsnum" where
  "example_toNumber s =
     (if s = [] then Fin 0
      else if list_all is_digit s then Fin (real (digits_val s))
      else NaN)"

definition example_builtins :: js_builtins where
  "example_builtins =
     \<lparr> trim = (\<lambda>s. s),
       parseFloat = (\<lambda>s. if s = ''79.5'' then Fin 79.5 else NaN),
       parseInt10 = (\<lambda>s. NaN),
       toNumber = example_toNumber,
       round_double = Fin \<rparr>"

text \<open>
  A current time, ten o'clock on 10 January 2024, and a store with entries on that day
  and the two days before it.
\<close>

definition example_now :: jsdate where
  "example_now = LocalDate 2024 0 10 36000000"

definition example_streak_state :: app_state where
  "example_streak_state =
     example_state\<lparr>entries :=
       [example_other_entry, example_other_entry\<lparr>date := Str ''2024-01-09''\<rparr>,
        example_other_entry\<lparr>date := Str ''2024-01-10''\<rparr>]\<rparr>"

text \<open>
  The operator \<open>>\<close> on two strings compares them unit by unit; this stand-in for the
  operator is used in the examples, where all dates are strings.
\<close>

fun str_less :: "string \<Rightarrow> string \<Rightarrow> bool" where
  "str_less [] [] = False"
| "str_less [] (y # ys) = True"
| "str_less (x # xs) [] = False"
| "str_less (x # xs) (y # ys) =
     ((of_char x :: nat) < of_char y \<or> (x = y \<and> str_less xs ys))"

fun example_gt :: "jsval \<Rightarrow> jsval \<Rightarrow> bool" where
  "example_gt (Str a) (Str b) = str_less b a"
| "example_gt _ _ = False"

definition example_activity_entry :: entry where
  "example_activity_entry =
     \<lparr> date = Str ''2024-01-05'', weight = Null, activityType = Str label_running,
       notes_field = Str [], durationMinutes = Num (Fin 30) \<rparr>"

definition example_zero_weight_entry :: entry where
  "example_zero_weight_entry =
     \<lparr> date = Str ''2024-01-05'', weight = Num (Fin 0), activityType = Str label_running,
       notes_field = Str [], durationMinutes = Num (Fin 30) \<rparr>"

text \<open>
  A stand-in for \<open>JSON.stringify\<close> and \<open>JSON.parse\<close> on the backup object of the
  example store: the object is written as one text and that text is read back as the
  object.
\<close>

definition example_exported_at :: string where
  "example_exported_at = ''2024-01-10T08:00:00.000Z''"

definition example_stringify :: "jsval \<Rightarrow> string" where
  "example_stringify v =
     (if v = backup_data example_exported_at example_state then ''the backup text''
      else ''another text'')"

definition example_read_back :: "string \<Rightarrow> jsval option" where
  "example_read_back s =
     (if s = ''the backup text'' then Some (backup_data example_exported_at example_state)
      else None)"

section \<open>Verified properties\<close>

subsection \<open>Key equality and the invariant\<close>

lemma svz_eq: "same_value_zero a b \<Longrightarrow> a = b"
  by (cases a; cases b) auto

lemma svz_sym: "same_value_zero a b = same_value_zero b a"
  by (cases a; cases b) auto

lemma svz_prim: "is_primitive a \<Longrightarrow> same_value_zero a b = (a = b)"
  by (cases a; cases b) auto

lemma unique_dates_append:
  "unique_dates (xs @ ys) =
     (unique_dates xs \<and> unique_dates ys \<and>
      (\<forall>x\<in>set xs. \<forall>y\<in>set ys. \<not> same_value_zero (date x) (date y)))"
  by (induction xs) auto

lemma unique_dates_filter: "unique_dates es \<Longrightarrow> unique_dates (filter P es)"
  by (induction es) auto

lemma unique_dates_mset:
  "mset xs = mset ys \<Longrightarrow> unique_dates xs = unique_dates ys"
proof (induction xs arbitrary: ys)
  case Nil then show ?case by simp
next
  case (Cons x xs)
  then have "x \<in> set ys" by (metis list.set_intros(1) mset_eq_setD)
  then obtain us vs where ys: "ys = us @ x # vs" by (meson split_list)
  with Cons.prems have m: "mset xs = mset (us @ vs)" by simp
  then have s: "set xs = set us \<union> set vs" by (metis mset_eq_setD set_append)
  from Cons.IH[OF m] show ?case
    unfolding ys by (auto simp: unique_dates_append s svz_sym)
qed

lemma unique_dates_distinct:
  "\<forall>e\<in>set es. is_primitive (date e) \<Longrightarrow> unique_dates es = distinct (map date es)"
  by (induction es) (auto simp: svz_prim)

lemma map_set_dates:
  "date v = k \<Longrightarrow> \<forall>(k, v)\<in>set m. date v = k \<Longrightarrow> e \<in> set (map snd (map_set m k v)) \<Longrightarrow>
     date e = k \<or> date e \<in> date ` set (map snd m)"
  by (induction m k v rule: map_set.induct) (auto split: if_splits dest: svz_eq)

lemma map_set_inv: "map_inv m \<Longrightarrow> date v = k \<Longrightarrow> map_inv (map_set m k v)"
proof (induction m k v rule: map_set.induct)
  case (1 k v) then show ?case by (simp add: map_inv_def)
next
  case (2 k' v' m k v)
  show ?case
  proof (cases "same_value_zero k' k")
    case True
    then have "k' = k" by (rule svz_eq)
    with True 2(2,3) show ?thesis by (auto simp: map_inv_def)
  next
    case False
    from 2 have i: "map_inv m" by (auto simp: map_inv_def)
    have ih: "map_inv (map_set m k v)" using 2 False i by simp
    have "\<not> same_value_zero (date v') (date e)" if "e \<in> set (map snd (map_set m k v))" for e
    proof -
      from map_set_dates[OF 2(3) _ that] i
      have "date e = k \<or> date e \<in> date ` set (map snd m)" by (auto simp: map_inv_def)
      then show ?thesis using 2(2) False by (auto simp: map_inv_def)
    qed
    then show ?thesis using ih False 2(2) by (auto simp: map_inv_def)
  qed
qed

lemma existing_map_inv_aux: "map_inv m \<Longrightarrow> map_inv (foldl (\<lambda>m e. map_set m (date e) e) m es)"
  by (induction es arbitrary: m) (auto simp: map_set_inv)

lemma existing_map_inv: "map_inv (existing_map es)"
  unfolding existing_map_def by (rule existing_map_inv_aux) (simp add: map_inv_def)

lemma imported_entry_date: "date (imported_entry rt l) = get_prop ''date'' l"
  by (simp add: imported_entry_def)

lemma import_log_inv: "map_inv m \<Longrightarrow> map_inv (import_log rt m l)"
  by (simp add: import_log_def map_set_inv imported_entry_date)

lemma foldl_import_inv: "map_inv m \<Longrightarrow> map_inv (foldl (import_log rt) m ls)"
  by (induction ls arbitrary: m) (auto simp: import_log_inv)

lemma merged_unique: "unique_dates (merged_entries rt es logs)"
  using foldl_import_inv[OF existing_map_inv, where es1 = es and ls = logs and rt = rt]
  by (simp add: merged_entries_def map_values_def map_inv_def)

lemma submit_unique: "unique_dates (entries st) \<Longrightarrow> unique_dates (entries (submit_entry d w a n m st))"
  by (auto simp: submit_entry_def saveEntries_def Let_def unique_dates_append unique_dates_filter dest: svz_eq)

lemma restore_unique:
  assumes "\<forall>xs. mset (srt xs) = mset xs" "unique_dates (entries st)"
  shows "unique_dates (entries (fst (restoreFullBackupJsonFromText P srt rt t st)))"
proof -
  have "unique_dates (srt (merged_entries rt es logs))" for es logs
    using unique_dates_mset[of "srt (merged_entries rt es logs)" "merged_entries rt es logs"] assms(1) merged_unique
    by simp
  then show ?thesis using assms(2)
    by (auto simp: restoreFullBackupJsonFromText_def saveEntries_def saveSettings_def Let_def
        split: option.splits jsval.splits)
qed

subsection \<open>The merge\<close>

lemma map_set_has: "(k, v) \<in> set (map_set m k v)"
  by (induction m k v rule: map_set.induct) (auto dest: svz_eq)

lemma map_set_keeps: "(k0, e) \<in> set m \<Longrightarrow> \<not> same_value_zero k0 k \<Longrightarrow> (k0, e) \<in> set (map_set m k v)"
  by (induction m k v rule: map_set.induct) auto

lemma foldl_existing_keeps:
  "(k0, e) \<in> set m \<Longrightarrow> \<forall>y\<in>set ys. \<not> same_value_zero k0 (date y) \<Longrightarrow>
     (k0, e) \<in> set (foldl (\<lambda>m e. map_set m (date e) e) m ys)"
  by (induction ys arbitrary: m) (auto simp: map_set_keeps)

lemma existing_map_has:
  assumes "unique_dates es" "e \<in> set es"
  shows "(date e, e) \<in> set (existing_map es)"
proof -
  from assms(2) obtain xs ys where es: "es = xs @ e # ys" by (meson split_list)
  with assms(1) have "\<forall>y\<in>set ys. \<not> same_value_zero (date e) (date y)"
    by (auto simp: unique_dates_append)
  then show ?thesis
    unfolding existing_map_def es
    by (simp add: foldl_existing_keeps map_set_has)
qed

lemma foldl_import_keeps:
  "(k0, e) \<in> set m \<Longrightarrow> k0 \<notin> set (imported_dates ls) \<Longrightarrow> (k0, e) \<in> set (foldl (import_log rt) m ls)"
proof (induction ls arbitrary: m)
  case Nil then show ?case by simp
next
  case (Cons l ls)
  have "(k0, e) \<in> set (import_log rt m l)"
    using Cons.prems by (auto simp: import_log_def imported_dates_def intro!: map_set_keeps dest: svz_eq)
  moreover have "k0 \<notin> set (imported_dates ls)"
    using Cons.prems(2) by (auto simp: imported_dates_def)
  ultimately show ?case using Cons.IH by simp
qed

lemma merged_keeps:
  "unique_dates es \<Longrightarrow> e \<in> set es \<Longrightarrow> date e \<notin> set (imported_dates logs) \<Longrightarrow>
     e \<in> set (merged_entries rt es logs)"
  using foldl_import_keeps[OF existing_map_has, where ls = logs and rt = rt]
  by (force simp: merged_entries_def map_values_def)

lemma map_set_filter_hit:
  "map_inv m \<Longrightarrow> date v = k \<Longrightarrow> is_primitive k \<Longrightarrow>
     filter (\<lambda>e. date e = k) (map snd (map_set m k v)) = [v]"
proof (induction m k v rule: map_set.induct)
  case (1 k v) then show ?case by simp
next
  case (2 k' v' m k v)
  have i: "map_inv m" using 2(2) by (auto simp: map_inv_def)
  have dv': "date v' = k'" using 2(2) by (auto simp: map_inv_def)
  show ?case
  proof (cases "same_value_zero k' k")
    case True
    then have kk: "k' = k" by (rule svz_eq)
    have "\<forall>e\<in>set (map snd m). date e \<noteq> k"
      using 2(2) dv' kk True 2(4) by (auto simp: map_inv_def svz_prim)
    then have "filter (\<lambda>e. date e = k) (map snd m) = []" by (simp add: filter_empty_conv)
    with True 2(3) show ?thesis by simp
  next
    case False
    then have "k' \<noteq> k" using 2(4) by (auto simp: svz_sym svz_prim)
    with False 2 i dv' show ?thesis by simp
  qed
qed

lemma map_set_filter_miss:
  "map_inv m \<Longrightarrow> date v = k \<Longrightarrow> k \<noteq> d \<Longrightarrow>
     filter (\<lambda>e. date e = d) (map snd (map_set m k v)) = filter (\<lambda>e. date e = d) (map snd m)"
proof (induction m k v rule: map_set.induct)
  case (1 k v) then show ?case by simp
next
  case (2 k' v' m k v)
  have i: "map_inv m" using 2(2) by (auto simp: map_inv_def)
  have dv': "date v' = k'" using 2(2) by (auto simp: map_inv_def)
  show ?case
  proof (cases "same_value_zero k' k")
    case True
    then have kk: "k' = k" by (rule svz_eq)
    with True 2(3,4) dv' show ?thesis by simp
  next
    case False
    with 2 i show ?thesis by simp
  qed
qed

lemma foldl_import_last:
  assumes "map_inv m" "ds \<noteq> []" "\<exists>l\<in>set ls. get_prop ''date'' l = Str ds"
  shows "filter (\<lambda>e. date e = Str ds) (map snd (foldl (import_log rt) m ls)) =
           [imported_entry rt (last (filter (\<lambda>l. get_prop ''date'' l = Str ds) ls))]"
  using assms(3)
proof (induction ls rule: rev_induct)
  case Nil then show ?case by simp
next
  case (snoc l ls)
  let ?m = "foldl (import_log rt) m ls"
  have i: "map_inv ?m" using assms(1) by (rule foldl_import_inv)
  show ?case
  proof (cases "get_prop ''date'' l = Str ds")
    case True
    then have "truthy l" by (cases l) auto
    with True assms(2) have "import_log rt ?m l = map_set ?m (Str ds) (imported_entry rt l)"
      by (simp add: import_log_def)
    with True i show ?thesis
      by (simp add: map_set_filter_hit imported_entry_date)
  next
    case False
    with snoc.prems have ex: "\<exists>l\<in>set ls. get_prop ''date'' l = Str ds" by auto
    have "filter (\<lambda>e. date e = Str ds) (map snd (import_log rt ?m l)) =
            filter (\<lambda>e. date e = Str ds) (map snd ?m)"
      using False i by (simp add: import_log_def map_set_filter_miss imported_entry_date)
    with snoc.IH[OF ex] False show ?thesis by simp
  qed
qed

lemma filter_perm_single:
  assumes "mset ys = mset xs" "filter P xs = [v]"
  shows "filter P ys = [v]"
proof -
  have "mset (filter P ys) = mset (filter P xs)" using assms(1) by (simp add: mset_filter)
  then have "mset (filter P ys) = {#v#}" using assms(2) by simp
  then show ?thesis by (simp only: mset_single_iff)
qed

lemma restore_entries_logs:
  assumes "JSON_parse jsonText = Some parsed" "get_prop ''logs'' parsed = Arr logs"
  shows "entries (fst (restoreFullBackupJsonFromText JSON_parse sort_newest rt jsonText st)) =
           sort_newest (merged_entries rt (entries st) logs)"
proof -
  from assms(2) have "parsed \<noteq> Null" "parsed \<noteq> Undefined" by auto
  with assms show ?thesis
    by (simp add: restoreFullBackupJsonFromText_def saveEntries_def saveSettings_def Let_def)
qed

text \<open>
  Claim C1 (invariant I1, date uniqueness). Starting from a store in which no two entries
  share a date, any sequence of entry-form submissions and backup restores leaves a store
  in which no two entries share a date. Dates are compared as the program compares keys;
  when all dates of the result are strings, numbers or booleans (strings, in the data
  model), this is plain distinctness of the list of dates.
\<close>

theorem date_uniqueness_invariant:
  assumes "\<forall>xs. mset (sort_newest xs) = mset xs" and "unique_dates (entries st)"
  shows "unique_dates (entries (foldl (apply_store_op JSON_parse sort_newest rt) st ops)) \<and>
         ((\<forall>e\<in>set (entries (foldl (apply_store_op JSON_parse sort_newest rt) st ops)).
              is_primitive (date e)) \<longrightarrow>
          distinct (map date (entries (foldl (apply_store_op JSON_parse sort_newest rt) st ops))))"
proof -
  have step: "unique_dates (entries (apply_store_op JSON_parse sort_newest rt s op))"
    if "unique_dates (entries s)" for s op
    using that assms(1) by (cases op) (simp_all add: submit_unique restore_unique)
  have "unique_dates (entries (foldl (apply_store_op JSON_parse sort_newest rt) s ops))"
    if "unique_dates (entries s)" for s
    using that by (induction ops arbitrary: s) (simp_all add: step)
  from this[OF assms(2)] show ?thesis
    using unique_dates_distinct by blast
qed

text \<open>
  Claim C2 (merge non-destructiveness). When the backup's \<open>logs\<close> is an array, every
  entry of the store whose date is not the date of an imported record is still in the
  store after the restore, unchanged. The store is one that satisfies I1.
\<close>

theorem merge_keeps_other_dates:
  assumes "\<forall>xs. mset (sort_newest xs) = mset xs"
    and "JSON_parse jsonText = Some parsed" and "get_prop ''logs'' parsed = Arr logs"
    and "unique_dates (entries st)" and "e \<in> set (entries st)"
    and "date e \<notin> set (imported_dates logs)"
  shows "e \<in> set (entries (fst (restoreFullBackupJsonFromText JSON_parse sort_newest rt jsonText st)))"
proof -
  have "e \<in> set (merged_entries rt (entries st) logs)"
    using assms(4-6) by (rule merged_keeps)
  moreover have "set (sort_newest xs) = set xs" for xs
    using assms(1) by (metis mset_eq_setD)
  ultimately show ?thesis
    using restore_entries_logs[where JSON_parse = JSON_parse and jsonText = jsonText and parsed = parsed
        and logs = logs and sort_newest = sort_newest and rt = rt and st = st] assms(2,3)
    by simp
qed

text \<open>
  Claim C3 (merge overwrite). When the imported array has a record for the date
  \<open>ds\<close>, the store has exactly one entry for that date after the restore, whatever it held
  before, and every field of that entry comes from \<open>r\<close>, the last imported record of
  that date: the weight is the record's number, or what \<open>parseFloat\<close> reads from its
  non-blank string, and null otherwise; the duration likewise with \<open>parseInt\<close>; the
  activity and the notes are the record's when truthy and the empty string otherwise.
\<close>

theorem merge_overwrite:
  assumes "\<forall>xs. mset (sort_newest xs) = mset xs"
    and "JSON_parse jsonText = Some parsed" and "get_prop ''logs'' parsed = Arr logs"
    and "ds \<noteq> []" and "\<exists>l\<in>set logs. get_prop ''date'' l = Str ds"
    and "r = last (filter (\<lambda>l. get_prop ''date'' l = Str ds) logs)"
  shows "filter (\<lambda>e. date e = Str ds)
           (entries (fst (restoreFullBackupJsonFromText JSON_parse sort_newest rt jsonText st))) =
         [\<lparr> date = Str ds,
            weight =
              (case get_prop ''weight'' r of
                 Num n \<Rightarrow> Num n
               | Str s \<Rightarrow>
                   (if trim rt s \<noteq> [] \<and> \<not> isNaN (parseFloat rt s)
                    then Num (parseFloat rt s) else Null)
               | _ \<Rightarrow> Null),
            activityType =
              (if truthy (get_prop ''activityType'' r) then get_prop ''activityType'' r
               else Str []),
            notes_field =
              (if truthy (get_prop ''notes'' r) then get_prop ''notes'' r else Str []),
            durationMinutes =
              (case get_prop ''durationMinutes'' r of
                 Num n \<Rightarrow> Num n
               | Str s \<Rightarrow>
                   (if trim rt s \<noteq> [] \<and> \<not> isNaN (parseInt10 rt (trim rt s))
                    then Num (parseInt10 rt (trim rt s)) else Null)
               | _ \<Rightarrow> Null) \<rparr>]"
proof -
  let ?f = "filter (\<lambda>l. get_prop ''date'' l = Str ds) logs"
  have ne: "?f \<noteq> []" using assms(5) by (auto simp: filter_empty_conv)
  then have "last ?f \<in> set ?f" by (rule last_in_set)
  then have rd: "get_prop ''date'' r = Str ds" unfolding assms(6) by simp
  have "filter (\<lambda>e. date e = Str ds) (merged_entries rt (entries st) logs) =
          [imported_entry rt r]"
    unfolding merged_entries_def map_values_def assms(6)
    using existing_map_inv assms(4,5) by (rule foldl_import_last)
  moreover have "mset (sort_newest (merged_entries rt (entries st) logs)) =
      mset (merged_entries rt (entries st) logs)"
    using assms(1) by blast
  ultimately have "filter (\<lambda>e. date e = Str ds)
      (sort_newest (merged_entries rt (entries st) logs)) = [imported_entry rt r]"
    by (rule filter_perm_single[rotated])
  then have "filter (\<lambda>e. date e = Str ds)
      (entries (fst (restoreFullBackupJsonFromText JSON_parse sort_newest rt jsonText st))) =
      [imported_entry rt r]"
    using restore_entries_logs[where JSON_parse = JSON_parse and jsonText = jsonText
        and parsed = parsed and logs = logs and sort_newest = sort_newest and rt = rt and st = st]
      assms(2,3)
    by simp
  then show ?thesis
    by (simp add: imported_entry_def coerce_weight_def coerce_duration_def js_or_def rd)
qed

text \<open>
  Claim C7 (malformed-import atomicity). When the text does not parse, the restore
  function alerts that the file is not valid JSON and returns the state as it was: both
  global variables and both storage keys.
\<close>

theorem restore_malformed_untouched:
  "JSON_parse jsonText = None \<Longrightarrow>
     restoreFullBackupJsonFromText JSON_parse sort_newest rt jsonText st = (st, AlertMalformedJson)"
  by (simp add: restoreFullBackupJsonFromText_def)

theorem restore_malformed_untouched_witness:
  "example_parse ''{not json'' = None \<and>
   restoreFullBackupJsonFromText example_parse rev example_builtins ''{not json'' example_state =
     (example_state, AlertMalformedJson)"
  using restore_malformed_untouched[where JSON_parse = example_parse and jsonText = "''{not json''"
      and sort_newest = rev and rt = example_builtins and st = example_state]
  by (simp add: example_parse_def)

theorem date_uniqueness_invariant_witness:
  "(\<forall>xs::entry list. mset (rev xs) = mset xs) \<and> unique_dates (entries example_state) \<and>
   unique_dates (entries (foldl (apply_store_op example_parse rev example_builtins) example_state
      [MergeImport ''backup'', AddOrReplace ''2024-01-08'' Null (Str ''run'') (Str []) Null,
       MergeImport ''backup''])) \<and>
   map date (entries (foldl (apply_store_op example_parse rev example_builtins) example_state
      [MergeImport ''backup'', AddOrReplace ''2024-01-08'' Null (Str ''run'') (Str []) Null,
       MergeImport ''backup''])) = [Str ''2024-01-08'', Str ''2024-01-01'']"
proof -
  have h1: "\<forall>xs::entry list. mset (rev xs) = mset xs" by simp
  have h2: "unique_dates (entries example_state)" by code_simp
  have h3: "map date (entries (foldl (apply_store_op example_parse rev example_builtins) example_state
      [MergeImport ''backup'', AddOrReplace ''2024-01-08'' Null (Str ''run'') (Str []) Null,
       MergeImport ''backup''])) = [Str ''2024-01-08'', Str ''2024-01-01'']"
    by code_simp
  from date_uniqueness_invariant[OF h1 h2, where JSON_parse = example_parse and rt = example_builtins] h1 h2 h3 show ?thesis by blast
qed

theorem merge_keeps_other_dates_witness:
  "(\<forall>xs::entry list. mset (rev xs) = mset xs) \<and>
   example_parse ''backup'' = Some example_backup \<and>
   get_prop ''logs'' example_backup =
     Arr [Obj [(''date'', Str ''2024-01-01''), (''weight'', Str ''79.5'')]] \<and>
   unique_dates (entries example_state) \<and>
   example_other_entry \<in> set (entries example_state) \<and>
   date example_other_entry \<notin>
     set (imported_dates [Obj [(''date'', Str ''2024-01-01''), (''weight'', Str ''79.5'')]]) \<and>
   example_other_entry \<in>
     set (entries (fst (restoreFullBackupJsonFromText example_parse rev example_builtins ''backup'' example_state)))"
proof -
  have h1: "\<forall>xs::entry list. mset (rev xs) = mset xs" by simp
  have h2: "example_parse ''backup'' = Some example_backup" by (simp add: example_parse_def)
  have h3: "get_prop ''logs'' example_backup =
     Arr [Obj [(''date'', Str ''2024-01-01''), (''weight'', Str ''79.5'')]]"
    by (simp add: example_backup_def)
  have h4: "unique_dates (entries example_state)" by code_simp
  have h5: "example_other_entry \<in> set (entries example_state)"
    by (simp add: example_state_def)
  have h6: "date example_other_entry \<notin>
     set (imported_dates [Obj [(''date'', Str ''2024-01-01''), (''weight'', Str ''79.5'')]])"
    by (simp add: imported_dates_def example_other_entry_def)
  have "example_other_entry \<in>
     set (entries (fst (restoreFullBackupJsonFromText example_parse rev example_builtins ''backup'' example_state)))"
    using h1 h2 h3 h4 h5 h6
    by (rule merge_keeps_other_dates[where sort_newest = rev and JSON_parse = example_parse
          and parsed = example_backup and st = example_state and rt = example_builtins])
  with h1 h2 h3 h4 h5 h6 show ?thesis by blast
qed

theorem merge_overwrite_witness:
  "(\<forall>xs::entry list. mset (rev xs) = mset xs) \<and>
   example_parse ''backup'' = Some example_backup \<and>
   get_prop ''logs'' example_backup =
     Arr [Obj [(''date'', Str ''2024-01-01''), (''weight'', Str ''79.5'')]] \<and>
   ''2024-01-01'' \<noteq> [] \<and>
   (\<exists>l\<in>set [Obj [(''date'', Str ''2024-01-01''), (''weight'', Str ''79.5'')]].
      get_prop ''date'' l = Str ''2024-01-01'') \<and>
   Obj [(''date'', Str ''2024-01-01''), (''weight'', Str ''79.5'')] =
     last (filter (\<lambda>l. get_prop ''date'' l = Str ''2024-01-01'')
       [Obj [(''date'', Str ''2024-01-01''), (''weight'', Str ''79.5'')]]) \<and>
   trim example_builtins ''79.5'' = ''79.5'' \<and>
   parseFloat example_builtins ''79.5'' = Fin 79.5 \<and>
   example_old_entry \<in> set (entries example_state) \<and>
   notes_field example_old_entry = Str ''x'' \<and>
   filter (\<lambda>e. date e = Str ''2024-01-01'')
     (entries (fst (restoreFullBackupJsonFromText example_parse rev example_builtins ''backup''
        example_state))) =
     [\<lparr> date = Str ''2024-01-01'', weight = Num (Fin 79.5), activityType = Str [],
        notes_field = Str [], durationMinutes = Null \<rparr>]"
proof -
  let ?r = "Obj [(''date'', Str ''2024-01-01''), (''weight'', Str ''79.5'')]"
  have h1: "\<forall>xs::entry list. mset (rev xs) = mset xs" by simp
  have h2: "example_parse ''backup'' = Some example_backup" by (simp add: example_parse_def)
  have h3: "get_prop ''logs'' example_backup = Arr [?r]"
    by (simp add: example_backup_def)
  have h4: "''2024-01-01'' \<noteq> []" by simp
  have h5: "\<exists>l\<in>set [?r]. get_prop ''date'' l = Str ''2024-01-01''" by simp
  have h6: "?r = last (filter (\<lambda>l. get_prop ''date'' l = Str ''2024-01-01'') [?r])" by simp
  have tr: "trim example_builtins ''79.5'' = ''79.5''" by (simp add: example_builtins_def)
  have pf: "parseFloat example_builtins ''79.5'' = Fin 79.5"
    by (simp add: example_builtins_def)
  have o1: "example_old_entry \<in> set (entries example_state)"
    by (simp add: example_state_def)
  have o2: "notes_field example_old_entry = Str ''x''" by (simp add: example_old_entry_def)
  have "filter (\<lambda>e. date e = Str ''2024-01-01'')
     (entries (fst (restoreFullBackupJsonFromText example_parse rev example_builtins ''backup''
        example_state))) =
     [\<lparr> date = Str ''2024-01-01'', weight = Num (Fin 79.5), activityType = Str [],
        notes_field = Str [], durationMinutes = Null \<rparr>]"
    using merge_overwrite[where sort_newest = rev and JSON_parse = example_parse
          and parsed = example_backup and st = example_state and rt = example_builtins
          and jsonText = "''backup''" and ds = "''2024-01-01''" and logs = "[?r]" and r = ?r,
          OF h1 h2 h3 h4 h5 h6]
    by (simp add: tr pf)
  with h1 h2 h3 h4 h5 h6 tr pf o1 o2 show ?thesis by blast
qed

text \<open>
  Claim C10 (the two halves of a restore are applied independently), as amended: when the
  parsed value has a truthy \<open>userSettings\<close> and its \<open>logs\<close> is not an array, the settings
  variable and the settings key become exactly that value, the entries are untouched and
  the message counts the entries that were already there; when \<open>userSettings\<close> is missing
  or falsy and \<open>logs\<close> is an array, the entries are merged and the settings are untouched.
\<close>

theorem restore_halves_independent:
  assumes "JSON_parse jsonText = Some parsed"
  shows "(truthy (get_prop ''userSettings'' parsed) \<and> \<not> isArray (get_prop ''logs'' parsed) \<longrightarrow>
            restoreFullBackupJsonFromText JSON_parse sort_newest rt jsonText st =
              (st\<lparr>userSettings := get_prop ''userSettings'' parsed,
                  storedSettings := Some (get_prop ''userSettings'' parsed)\<rparr>,
               AlertRestoreDone (length (entries st)))) \<and>
         (\<not> truthy (get_prop ''userSettings'' parsed) \<and> get_prop ''logs'' parsed = Arr logs \<longrightarrow>
            restoreFullBackupJsonFromText JSON_parse sort_newest rt jsonText st =
              (st\<lparr>entries := sort_newest (merged_entries rt (entries st) logs),
                  storedEntries := Some (sort_newest (merged_entries rt (entries st) logs))\<rparr>,
               AlertRestoreDone (length (sort_newest (merged_entries rt (entries st) logs)))))"
proof -
  have a: "truthy (get_prop ''userSettings'' parsed) \<Longrightarrow> parsed \<noteq> Null \<and> parsed \<noteq> Undefined"
    by auto
  have b: "get_prop ''logs'' parsed = Arr logs \<Longrightarrow> parsed \<noteq> Null \<and> parsed \<noteq> Undefined"
    by auto
  show ?thesis
    using assms a b
    by (auto simp: restoreFullBackupJsonFromText_def saveEntries_def saveSettings_def Let_def
        split: jsval.splits)
qed

theorem restore_halves_independent_witness:
  "example_parse ''settings only'' = Some settings_only_backup \<and>
   truthy (get_prop ''userSettings'' settings_only_backup) \<and>
   \<not> isArray (get_prop ''logs'' settings_only_backup) \<and>
   restoreFullBackupJsonFromText example_parse rev example_builtins ''settings only'' example_state =
     (example_state\<lparr>userSettings := Obj [(''firstName'', Num (Fin 7))],
                     storedSettings := Some (Obj [(''firstName'', Num (Fin 7))])\<rparr>,
      AlertRestoreDone 2)"
proof -
  have h1: "example_parse ''settings only'' = Some settings_only_backup"
    by (simp add: example_parse_def)
  have h2: "truthy (get_prop ''userSettings'' settings_only_backup)"
    by (simp add: settings_only_backup_def)
  have h3: "\<not> isArray (get_prop ''logs'' settings_only_backup)"
    by (simp add: settings_only_backup_def)
  have g: "get_prop ''userSettings'' settings_only_backup = Obj [(''firstName'', Num (Fin 7))]"
    by (simp add: settings_only_backup_def)
  have l: "length (entries example_state) = 2" by (simp add: example_state_def)
  from restore_halves_independent[where JSON_parse = example_parse
      and jsonText = "''settings only''" and parsed = settings_only_backup
      and sort_newest = rev and st = example_state and rt = example_builtins] h1 h2 h3 g l
  show ?thesis by simp
qed

theorem restore_falsy_settings_counterexample:
  "example_parse ''falsy settings'' = Some falsy_settings_backup \<and>
   map_of [(''userSettings'', Bool False), (''logs'', Null)] ''userSettings'' = Some (Bool False) \<and>
   falsy_settings_backup = Obj [(''userSettings'', Bool False), (''logs'', Null)] \<and>
   \<not> isArray (get_prop ''logs'' falsy_settings_backup) \<and>
   userSettings (fst (restoreFullBackupJsonFromText example_parse rev example_builtins ''falsy settings''
      example_state)) = example_settings \<and>
   example_settings \<noteq> get_prop ''userSettings'' falsy_settings_backup"
  by (simp add: example_parse_def falsy_settings_backup_def restoreFullBackupJsonFromText_def
      example_state_def example_settings_def)

subsection \<open>Export and import\<close>

lemma imported_entry_json: "entry_shaped e \<Longrightarrow> imported_entry rt (entry_json e) = e"
proof -
  assume s: "entry_shaped e"
  have w: "num_or_null v \<Longrightarrow> coerce_weight rt v = v" for v
    by (cases v rule: num_or_null.cases) (simp_all add: coerce_weight_def)
  have d: "num_or_null v \<Longrightarrow> coerce_duration rt v = v" for v
    by (cases v rule: num_or_null.cases) (simp_all add: coerce_duration_def)
  have o: "is_string v \<Longrightarrow> js_or v (Str []) = v" for v
    by (cases v) (simp_all add: js_or_def)
  from s show ?thesis
    by (simp add: imported_entry_def entry_json_def entry_shaped_def w d o)
qed

lemma map_set_values: "set (map snd (map_set m k v)) \<subseteq> insert v (set (map snd m))"
  by (induction m k v rule: map_set.induct) auto

lemma existing_values_aux:
  "set (map snd (foldl (\<lambda>m e. map_set m (date e) e) m es)) \<subseteq> set (map snd m) \<union> set es"
proof (induction es arbitrary: m)
  case Nil then show ?case by simp
next
  case (Cons e es)
  from Cons.IH[of "map_set m (date e) e"] map_set_values[of m "date e" e]
  show ?case by auto
qed

lemma existing_values: "set (map snd (existing_map es)) \<subseteq> set es"
  using existing_values_aux[of "[]" es] by (simp add: existing_map_def)

lemma import_values:
  "set (map snd (foldl (import_log rt) m ls)) \<subseteq> set (map snd m) \<union> imported_entry rt ` set ls"
proof (induction ls arbitrary: m)
  case Nil then show ?case by simp
next
  case (Cons l ls)
  have "set (map snd (import_log rt m l)) \<subseteq> insert (imported_entry rt l) (set (map snd m))"
    using map_set_values[of m "get_prop ''date'' l" "imported_entry rt l"]
    by (auto simp: import_log_def)
  with Cons.IH[of "import_log rt m l"] show ?case by auto
qed

lemma merged_values: "set (merged_entries rt es logs) \<subseteq> set es \<union> imported_entry rt ` set logs"
  using import_values[of rt "existing_map es" logs] existing_values[of es]
  by (auto simp: merged_entries_def map_values_def)

lemma same_date_same_entry:
  assumes "unique_dates es" "e \<in> set es" "e' \<in> set es" "date e = date e'" "is_primitive (date e)"
  shows "e = e'"
  using assms
proof (induction es)
  case Nil then show ?case by simp
next
  case (Cons x xs)
  then show ?case by (auto simp: svz_prim)
qed

lemma shaped_date: "entry_shaped e \<Longrightarrow> \<exists>d. date e = Str d \<and> d \<noteq> []"
  by (cases "date e") (auto simp: entry_shaped_def)

lemma merged_roundtrip:
  assumes sh: "\<forall>e\<in>set es. entry_shaped e" and un: "unique_dates es"
    and sub: "set es0 \<subseteq> set es"
  shows "set (merged_entries rt es0 (map entry_json es)) = set es"
proof
  show "set (merged_entries rt es0 (map entry_json es)) \<subseteq> set es"
    using merged_values[of rt es0 "map entry_json es"] sub sh
    by (auto simp: imported_entry_json)
next
  show "set es \<subseteq> set (merged_entries rt es0 (map entry_json es))"
  proof
    fix e assume e: "e \<in> set es"
    then obtain d where d: "date e = Str d" "d \<noteq> []" using sh shaped_date by blast
    let ?ls = "map entry_json es"
    let ?f = "filter (\<lambda>l. get_prop ''date'' l = Str d) ?ls"
    have gd: "get_prop ''date'' (entry_json x) = date x" for x
      by (simp add: entry_json_def)
    have ex: "\<exists>l\<in>set ?ls. get_prop ''date'' l = Str d"
      using e d gd by auto
    then have ne: "?f \<noteq> []" by (auto simp: filter_empty_conv)
    then have "last ?f \<in> set ?f" by (rule last_in_set)
    then obtain e' where e': "e' \<in> set es" "last ?f = entry_json e'" "date e' = Str d"
      using gd by auto
    have "e = e'"
      using un e e'(1) by (rule same_date_same_entry) (simp_all add: d e'(3))
    with e' sh e have ie: "imported_entry rt (last ?f) = e" by (simp add: imported_entry_json)
    have "filter (\<lambda>x. date x = Str d) (map snd (foldl (import_log rt) (existing_map es0) ?ls)) =
            [imported_entry rt (last ?f)]"
      using existing_map_inv d(2) ex by (rule foldl_import_last)
    then have "e \<in> set (filter (\<lambda>x. date x = Str d) (merged_entries rt es0 ?ls))"
      by (simp add: merged_entries_def map_values_def ie)
    then show "e \<in> set (merged_entries rt es0 ?ls)" by simp
  qed
qed

text \<open>
  Claim C8 (export/import round trip). The export serialises the object \<open>data\<close> of the
  version, the export time, the settings and the entries. Take a state whose entries
  satisfy I1 and are shaped as in the data model and whose settings are truthy (an
  object), and let \<open>JSON.parse\<close> give back that object from what \<open>JSON.stringify\<close>
  wrote for it, as it does for an object of plain data. Then restoring the exported text
  into a store that holds nothing else (the empty store, or the exporting store itself)
  gives the same set of entries, one per date, and the same settings, in the variable and
  under the storage keys.
\<close>

theorem export_import_roundtrip:
  assumes "\<forall>xs. mset (sort_newest xs) = mset xs"
    and "JSON_parse (JSON_stringify (backup_data exportedAt st)) =
           Some (backup_data exportedAt st)"
    and "\<forall>e\<in>set (entries st). entry_shaped e"
    and "unique_dates (entries st)"
    and "truthy (userSettings st)"
    and "set (entries st0) \<subseteq> set (entries st)"
    and "st' = fst (restoreFullBackupJsonFromText JSON_parse sort_newest rt
                  (exportFullBackupJson JSON_stringify exportedAt st) st0)"
  shows "set (entries st') = set (entries st) \<and>
         distinct (map date (entries st')) \<and>
         userSettings st' = userSettings st \<and>
         storedEntries st' = Some (entries st') \<and>
         storedSettings st' = Some (userSettings st)"
proof -
  let ?t = "exportFullBackupJson JSON_stringify exportedAt st"
  let ?m = "merged_entries rt (entries st0) (map entry_json (entries st))"
  have p: "JSON_parse ?t = Some (backup_data exportedAt st)"
    using assms(2) by (simp add: exportFullBackupJson_def)
  have en: "entries st' = sort_newest ?m"
    unfolding assms(7) using p assms(5)
    by (simp add: restoreFullBackupJsonFromText_def backup_data_def saveEntries_def
        saveSettings_def Let_def)
  have us: "userSettings st' = userSettings st"
    unfolding assms(7) using p assms(5)
    by (simp add: restoreFullBackupJsonFromText_def backup_data_def saveEntries_def
        saveSettings_def Let_def)
  have se: "storedEntries st' = Some (sort_newest ?m)"
    unfolding assms(7) using p assms(5)
    by (simp add: restoreFullBackupJsonFromText_def backup_data_def saveEntries_def
        saveSettings_def Let_def)
  have ss: "storedSettings st' = Some (userSettings st)"
    unfolding assms(7) using p assms(5)
    by (simp add: restoreFullBackupJsonFromText_def backup_data_def saveEntries_def
        saveSettings_def Let_def)
  have ms: "mset (sort_newest ?m) = mset ?m" using assms(1) by blast
  then have "set (sort_newest ?m) = set ?m" by (rule mset_eq_setD)
  then have s: "set (entries st') = set (entries st)"
    using merged_roundtrip[OF assms(3,4,6), of rt] en by simp
  have "unique_dates (sort_newest ?m)"
    using unique_dates_mset[OF ms] merged_unique by simp
  moreover have "\<forall>e\<in>set (sort_newest ?m). is_primitive (date e)"
  proof
    fix e assume "e \<in> set (sort_newest ?m)"
    with s en have "entry_shaped e" using assms(3) by auto
    then show "is_primitive (date e)" using shaped_date by fastforce
  qed
  ultimately have "distinct (map date (entries st'))"
    using unique_dates_distinct en by auto
  with s us se ss en show ?thesis by simp
qed

theorem export_import_roundtrip_witness:
  "(\<forall>xs::entry list. mset (rev xs) = mset xs) \<and>
   example_read_back (example_stringify (backup_data example_exported_at example_state)) =
     Some (backup_data example_exported_at example_state) \<and>
   entry_shaped example_old_entry \<and> entry_shaped example_other_entry \<and>
   entries example_state = [example_old_entry, example_other_entry] \<and>
   unique_dates (entries example_state) \<and>
   truthy (userSettings example_state) \<and>
   set (entries (example_state\<lparr>entries := [], userSettings := Null\<rparr>))
     \<subseteq> set (entries example_state) \<and>
   set (entries (fst (restoreFullBackupJsonFromText example_read_back rev example_builtins
          (exportFullBackupJson example_stringify example_exported_at example_state)
          (example_state\<lparr>entries := [], userSettings := Null\<rparr>)))) =
     {example_old_entry, example_other_entry} \<and>
   userSettings (fst (restoreFullBackupJsonFromText example_read_back rev example_builtins
          (exportFullBackupJson example_stringify example_exported_at example_state)
          (example_state\<lparr>entries := [], userSettings := Null\<rparr>))) = example_settings"
proof -
  let ?st0 = "example_state\<lparr>entries := [], userSettings := Null\<rparr>"
  let ?st' = "fst (restoreFullBackupJsonFromText example_read_back rev example_builtins
          (exportFullBackupJson example_stringify example_exported_at example_state) ?st0)"
  have h1: "\<forall>xs::entry list. mset (rev xs) = mset xs" by simp
  have h2: "example_read_back (example_stringify (backup_data example_exported_at example_state)) =
     Some (backup_data example_exported_at example_state)"
    by (simp add: example_read_back_def example_stringify_def)
  have s1: "entry_shaped example_old_entry"
    by (simp add: entry_shaped_def example_old_entry_def)
  have s2: "entry_shaped example_other_entry"
    by (simp add: entry_shaped_def example_other_entry_def)
  have s3: "entries example_state = [example_old_entry, example_other_entry]"
    by (simp add: example_state_def)
  have h3: "\<forall>e\<in>set (entries example_state). entry_shaped e"
    using s1 s2 by (simp add: s3)
  have h4: "unique_dates (entries example_state)" by code_simp
  have h5: "truthy (userSettings example_state)"
    by (simp add: example_state_def example_settings_def)
  have h6: "set (entries ?st0) \<subseteq> set (entries example_state)" by simp
  have e: "set (entries example_state) = {example_old_entry, example_other_entry}"
    by (simp add: s3)
  have u: "userSettings example_state = example_settings" by (simp add: example_state_def)
  from export_import_roundtrip[where sort_newest = rev and JSON_parse = example_read_back
      and JSON_stringify = example_stringify and exportedAt = example_exported_at
      and st = example_state and ?st0.0 = ?st0 and rt = example_builtins and st' = ?st',
      OF h1 h2 h3 h4 h5 h6 refl]
  have "set (entries ?st') = {example_old_entry, example_other_entry}"
    and "userSettings ?st' = example_settings"
    unfolding e u by simp_all
  with h1 h2 s1 s2 s3 h4 h5 h6 show ?thesis by blast
qed



subsection \<open>Calories\<close>

lemma js_gt0_iff: "js_gt0 w \<longleftrightarrow> \<not> (w = Fin 0 \<or> isNaN w \<or> js_le0 w)"
  by (cases w) (auto simp: js_gt0_def)

lemma number_of_Some: "number_of v = Some n \<longleftrightarrow> v = Num n \<and> \<not> isNaN n"
  by (cases v) auto

lemma calories_cases:
  "calculateEntryCalories rt js_gt es entry =
     (case number_of (durationMinutes entry) of
        None \<Rightarrow> None
      | Some d \<Rightarrow>
          (if \<not> js_gt0 d then None
           else case weight_used js_gt es entry of
                  None \<Rightarrow> None
                | Some w \<Rightarrow>
                    (if js_gt0 w \<and>
                        js_gt0 (js_mul rt
                          (js_mul rt (Fin (getMetForActivity (js_or (activityType entry) (Str [])))) w)
                          (js_div rt d (Fin 60)))
                     then Some (js_mul rt
                          (js_mul rt (Fin (getMetForActivity (js_or (activityType entry) (Str [])))) w)
                          (js_div rt d (Fin 60)))
                     else None)))"
proof (cases "number_of (durationMinutes entry)")
  case None
  then show ?thesis by (simp add: calculateEntryCalories_def)
next
  case (Some d)
  then have nn: "\<not> isNaN d" by (simp add: number_of_Some)
  have g: "js_gt0 d \<longleftrightarrow> \<not> (d = Fin 0 \<or> js_le0 d)" using nn by (simp add: js_gt0_iff)
  have wu: "(case number_of (weight entry) of Some w \<Rightarrow> Some w
             | None \<Rightarrow> getLatestWeightUpToDate js_gt es (date entry)) = weight_used js_gt es entry"
    by (simp add: weight_used_def)
  show ?thesis
  proof (cases "weight_used js_gt es entry")
    case None
    with Some show ?thesis
      unfolding calculateEntryCalories_def wu by (simp add: g)
  next
    case w: (Some w)
    with Some show ?thesis
      unfolding calculateEntryCalories_def wu by (simp add: g js_gt0_iff[of w] Let_def)
  qed
qed

text \<open>
  Claim C4 (calories of an entry), as amended. The result is null when the duration is not
  a positive number and when no weight resolves; the weight used is the entry's own weight
  whenever that is a number, and the latest weight up to the entry's date only otherwise;
  with a positive duration and a positive weight the result is MET times weight times
  duration over 60, in the arithmetic of doubles, if that is positive, and null otherwise;
  a weight that is not positive gives null. A result is never zero or negative.
\<close>

theorem calories_for_entry:
  "((\<forall>n. durationMinutes entry = Num n \<longrightarrow> isNaN n \<or> n = Fin 0 \<or> js_le0 n) \<longrightarrow>
      calculateEntryCalories rt js_gt es entry = None) \<and>
   (weight_used js_gt es entry = None \<longrightarrow> calculateEntryCalories rt js_gt es entry = None) \<and>
   (durationMinutes entry = Num d \<and> js_gt0 d \<and> weight_used js_gt es entry = Some w \<longrightarrow>
      calculateEntryCalories rt js_gt es entry =
        (if js_gt0 w \<and>
            js_gt0 (js_mul rt
              (js_mul rt (Fin (getMetForActivity (js_or (activityType entry) (Str [])))) w)
              (js_div rt d (Fin 60)))
         then Some (js_mul rt
              (js_mul rt (Fin (getMetForActivity (js_or (activityType entry) (Str [])))) w)
              (js_div rt d (Fin 60)))
         else None)) \<and>
   (\<forall>c. calculateEntryCalories rt js_gt es entry = Some c \<longrightarrow> js_gt0 c)"
proof (intro conjI impI allI)
  assume a: "\<forall>n. durationMinutes entry = Num n \<longrightarrow> isNaN n \<or> n = Fin 0 \<or> js_le0 n"
  show "calculateEntryCalories rt js_gt es entry = None"
  proof (cases "number_of (durationMinutes entry)")
    case None
    then show ?thesis by (simp add: calories_cases)
  next
    case (Some n)
    then have "durationMinutes entry = Num n" "\<not> isNaN n" by (simp_all add: number_of_Some)
    with a have "\<not> js_gt0 n" by (auto simp: js_gt0_iff)
    with Some show ?thesis by (simp add: calories_cases)
  qed
next
  assume "weight_used js_gt es entry = None"
  then show "calculateEntryCalories rt js_gt es entry = None"
    by (simp add: calories_cases split: option.splits)
next
  assume a: "durationMinutes entry = Num d \<and> js_gt0 d \<and> weight_used js_gt es entry = Some w"
  then have "\<not> isNaN d" by (auto simp: js_gt0_iff)
  with a have "number_of (durationMinutes entry) = Some d" by (simp add: number_of_Some)
  with a show "calculateEntryCalories rt js_gt es entry =
        (if js_gt0 w \<and>
            js_gt0 (js_mul rt
              (js_mul rt (Fin (getMetForActivity (js_or (activityType entry) (Str [])))) w)
              (js_div rt d (Fin 60)))
         then Some (js_mul rt
              (js_mul rt (Fin (getMetForActivity (js_or (activityType entry) (Str [])))) w)
              (js_div rt d (Fin 60)))
         else None)"
    by (simp add: calories_cases)
next
  fix c assume "calculateEntryCalories rt js_gt es entry = Some c"
  then show "js_gt0 c"
    unfolding calories_cases by (auto split: option.splits if_splits)
qed

theorem calories_for_entry_witness:
  "durationMinutes example_activity_entry = Num (Fin 30) \<and> js_gt0 (Fin 30) \<and>
   weight_used example_gt [example_old_entry, example_activity_entry] example_activity_entry =
     Some (Fin 80) \<and>
   calculateEntryCalories example_builtins example_gt [example_old_entry, example_activity_entry]
     example_activity_entry = Some (Fin 400) \<and>
   weight_used example_gt [] example_activity_entry = None \<and>
   calculateEntryCalories example_builtins example_gt [] example_activity_entry = None \<and>
   durationMinutes example_old_entry = Null \<and>
   calculateEntryCalories example_builtins example_gt [example_old_entry] example_old_entry = None"
proof -
  have h1: "durationMinutes example_activity_entry = Num (Fin 30)"
    by (simp add: example_activity_entry_def)
  have h1': "js_gt0 (Fin 30)" by (simp add: js_gt0_def)
  have h2: "weight_used example_gt [example_old_entry, example_activity_entry]
      example_activity_entry = Some (Fin 80)"
    by (simp add: weight_used_def getLatestWeightUpToDate_def latest_step_def
        example_activity_entry_def example_old_entry_def)
  have h3: "weight_used example_gt [] example_activity_entry = None"
    by (simp add: weight_used_def getLatestWeightUpToDate_def example_activity_entry_def)
  have h4: "\<forall>n. durationMinutes example_old_entry = Num n \<longrightarrow> isNaN n \<or> n = Fin 0 \<or> js_le0 n"
    by (simp add: example_old_entry_def)
  have h5: "durationMinutes example_old_entry = Null" by (simp add: example_old_entry_def)
  have m: "getMetForActivity (js_or (activityType example_activity_entry) (Str [])) = 10"
    by (simp add: getMetForActivity_def js_or_def example_activity_entry_def label_running_def
        label_walking_def)
  have a: "calculateEntryCalories example_builtins example_gt
     [example_old_entry, example_activity_entry] example_activity_entry = Some (Fin 400)"
    using calories_for_entry[where entry = example_activity_entry and js_gt = example_gt
        and es = "[example_old_entry, example_activity_entry]" and d = "Fin 30" and w = "Fin 80"
        and rt = example_builtins] h1 h1' h2 m
    by (simp add: example_builtins_def js_gt0_def)
  have b: "calculateEntryCalories example_builtins example_gt [] example_activity_entry = None"
    using calories_for_entry[where entry = example_activity_entry and js_gt = example_gt
        and es = "[]" and rt = example_builtins] h3 by blast
  have c: "calculateEntryCalories example_builtins example_gt [example_old_entry]
      example_old_entry = None"
    using calories_for_entry[where entry = example_old_entry and js_gt = example_gt
        and es = "[example_old_entry]" and rt = example_builtins] h4 by blast
  from h1 h1' h2 h3 h5 a b c show ?thesis by simp
qed

theorem calories_own_weight_counterexample:
  "weight example_zero_weight_entry = Num (Fin 0) \<and>
   durationMinutes example_zero_weight_entry = Num (Fin 30) \<and>
   getLatestWeightUpToDate example_gt [example_old_entry] (date example_zero_weight_entry) =
     Some (Fin 80) \<and>
   js_mul example_builtins
     (js_mul example_builtins
        (Fin (getMetForActivity (js_or (activityType example_zero_weight_entry) (Str []))))
        (Fin 80))
     (js_div example_builtins (Fin 30) (Fin 60)) = Fin 400 \<and>
   calculateEntryCalories example_builtins example_gt [example_old_entry]
     example_zero_weight_entry = None"
  by (simp add: calculateEntryCalories_def getLatestWeightUpToDate_def latest_step_def
      example_zero_weight_entry_def example_old_entry_def getMetForActivity_def js_or_def
      label_running_def label_walking_def example_builtins_def)

subsection \<open>Body mass index\<close>

lemma last_sort_key_max:
  assumes "xs \<noteq> []"
  shows "last (sort_key f xs) \<in> set xs \<and> (\<forall>x\<in>set xs. f x \<le> f (last (sort_key f xs)))"
proof -
  let ?s = "sort_key f xs"
  have ne: "?s \<noteq> []" using assms by (metis length_0_conv length_sort)
  have s: "sorted (map f ?s)" by simp
  have "last ?s \<in> set ?s" using ne by (rule last_in_set)
  then have m: "last ?s \<in> set xs" by simp
  have "f x \<le> f (last ?s)" if "x \<in> set xs" for x
  proof -
    from that have "x \<in> set ?s" by simp
    then obtain i where i: "i < length ?s" "?s ! i = x" by (meson in_set_conv_nth)
    have "map f ?s ! i \<le> map f ?s ! (length ?s - 1)"
      using s i(1) by (intro sorted_nth_mono) auto
    then show ?thesis using i ne by (simp add: last_conv_nth)
  qed
  with m show ?thesis by blast
qed

lemma sort_by_date_valid:
  assumes "\<forall>x\<in>set xs. \<exists>y mi d ms. dateFromYMD rt now (date_of x) = Inr (LocalDate y mi d ms)"
    and "xs \<noteq> []"
  shows "\<exists>ys. sort_by_date False rt now date_of xs = Returns ys \<and> ys \<noteq> [] \<and>
           last ys \<in> set xs \<and>
           (\<forall>x\<in>set xs. date_key (dateFromYMD rt now (date_of x))
                           \<le> date_key (dateFromYMD rt now (date_of (last ys))))"
proof (cases "length xs \<le> 1")
  case True
  with assms(2) obtain x where "xs = [x]" by (cases xs) auto
  then show ?thesis by (simp add: sort_by_date_def)
next
  case False
  have a: "\<not> list_ex (\<lambda>x. dateFromYMD rt now (date_of x) = Inl TypeError) xs"
    using assms(1) by (fastforce simp: list_ex_iff)
  have b: "\<not> list_ex (\<lambda>x. dateFromYMD rt now (date_of x) = Inr InvalidDate) xs"
    using assms(1) by (fastforce simp: list_ex_iff)
  let ?k = "\<lambda>x. date_key (dateFromYMD rt now (date_of x))"
  have "sort_by_date False rt now date_of xs = Returns (sort_key ?k xs)"
    using False a b by (simp add: sort_by_date_def)
  moreover have "sort_key ?k xs \<noteq> []" using assms(2) by (metis length_0_conv length_sort)
  ultimately show ?thesis using last_sort_key_max[OF assms(2), of ?k] by auto
qed

lemma sort_by_date_throws:
  assumes "2 \<le> length xs" "x \<in> set xs" "truthy (date_of x)" "\<not> is_string (date_of x)"
  shows "sort_by_date desc rt now date_of xs = Throws TypeError"
proof -
  have "dateFromYMD rt now (date_of x) = Inl TypeError"
    using assms(3,4) by (cases "date_of x") (simp_all add: dateFromYMD_def)
  with assms(2) have "list_ex (\<lambda>x. dateFromYMD rt now (date_of x) = Inl TypeError) xs"
    unfolding list_ex_iff by blast
  with assms(1) show ?thesis by (simp add: sort_by_date_def)
qed

lemma usable_height_None:
  "usable_height s = None \<longleftrightarrow>
     (\<not> truthy s \<or> (\<forall>h. get_prop ''heightCm'' s = Num h \<longrightarrow> isNaN h \<or> js_le0 h))"
  by (cases "get_prop ''heightCm'' s")
     (auto simp: usable_height_def split: option.splits if_splits)

lemma usable_height_Some:
  "truthy s \<Longrightarrow> get_prop ''heightCm'' s = Num h \<Longrightarrow> js_gt0 h \<Longrightarrow> usable_height s = Some h"
  by (cases h) (auto simp: usable_height_def js_gt0_def)

lemma no_weight_filter: "\<not> list_ex has_weight es \<Longrightarrow> filter has_weight es = []"
  by (simp add: list_ex_iff filter_empty_conv)

lemma bmi_none:
  assumes "\<not> truthy (userSettings st) \<or>
           (\<forall>h. get_prop ''heightCm'' (userSettings st) = Num h \<longrightarrow> isNaN h \<or> js_le0 h) \<or>
           \<not> list_ex has_weight (entries st)"
  shows "calculateCurrentBmi rt now st = Returns None"
proof (cases "usable_height (userSettings st)")
  case None
  then show ?thesis by (simp add: calculateCurrentBmi_def)
next
  case (Some h)
  then have "\<not> list_ex has_weight (entries st)"
    using assms usable_height_None[of "userSettings st"] by auto
  then show ?thesis
    using Some by (simp add: calculateCurrentBmi_def no_weight_filter)
qed

lemma bmi_value:
  assumes "truthy (userSettings st)" "get_prop ''heightCm'' (userSettings st) = Num h"
    "js_gt0 h" "list_ex has_weight (entries st)"
    "\<forall>e\<in>set (entries st). has_weight e \<longrightarrow>
        (\<exists>y mi d ms. dateFromYMD rt now (date e) = Inr (LocalDate y mi d ms))"
  shows "\<exists>e\<in>set (entries st). has_weight e \<and>
           (\<forall>e'\<in>set (entries st). has_weight e' \<longrightarrow>
              date_key (dateFromYMD rt now (date e')) \<le> date_key (dateFromYMD rt now (date e))) \<and>
           calculateCurrentBmi rt now st =
             Returns (Some
               (js_div rt (the_weight e) (js_mul rt (js_div rt h (Fin 100)) (js_div rt h (Fin 100))),
                bmi_category_of
                  (js_div rt (the_weight e)
                     (js_mul rt (js_div rt h (Fin 100)) (js_div rt h (Fin 100))))))"
proof -
  let ?w = "filter has_weight (entries st)"
  have ne: "?w \<noteq> []" using assms(4) by (auto simp: list_ex_iff filter_empty_conv)
  then have en: "entries st \<noteq> []" by auto
  have uh: "usable_height (userSettings st) = Some h"
    using assms(1,2,3) by (rule usable_height_Some)
  have v: "\<forall>x\<in>set ?w. \<exists>y mi d ms. dateFromYMD rt now (date x) = Inr (LocalDate y mi d ms)"
    using assms(5) by auto
  from sort_by_date_valid[OF v ne] obtain ys where
    ys: "sort_by_date False rt now date ?w = Returns ys" "last ys \<in> set ?w"
      "\<forall>x\<in>set ?w. date_key (dateFromYMD rt now (date x))
          \<le> date_key (dateFromYMD rt now (date (last ys)))"
    by blast
  have "calculateCurrentBmi rt now st =
      Returns (Some
        (js_div rt (the_weight (last ys))
           (js_mul rt (js_div rt h (Fin 100)) (js_div rt h (Fin 100))),
         bmi_category_of
           (js_div rt (the_weight (last ys))
              (js_mul rt (js_div rt h (Fin 100)) (js_div rt h (Fin 100))))))"
    unfolding calculateCurrentBmi_def using uh ne en ys(1)
    by (simp add: Let_def)
  with ys(2,3) show ?thesis by (intro bexI[of _ "last ys"]) auto
qed

lemma bmi_throws:
  assumes "truthy (userSettings st)" "get_prop ''heightCm'' (userSettings st) = Num h"
    "js_gt0 h" "2 \<le> length (filter has_weight (entries st))"
    "e \<in> set (entries st)" "has_weight e" "truthy (date e)" "\<not> is_string (date e)"
  shows "calculateCurrentBmi rt now st = Throws TypeError"
proof -
  let ?w = "filter has_weight (entries st)"
  have ne: "?w \<noteq> []" using assms(4) by auto
  then have en: "entries st \<noteq> []" by auto
  have uh: "usable_height (userSettings st) = Some h"
    using assms(1,2,3) by (rule usable_height_Some)
  have "e \<in> set ?w" using assms(5,6) by simp
  with assms(4,7,8) have "sort_by_date False rt now date ?w = Throws TypeError"
    by (intro sort_by_date_throws)
  then show ?thesis
    unfolding calculateCurrentBmi_def using uh ne en by simp
qed

lemma bmi_category_finite:
  "bmi_category_of (Fin b) =
     (if b < 18.5 then Underweight else if b < 25 then NormalRange
      else if b < 30 then Overweight else Obese)"
  by (simp add: bmi_category_of_def)

text \<open>
  Claim C6 (body mass index), as amended. The result is null when the settings are
  missing, the height is not a number greater than 0 or no entry has a weight. Otherwise,
  on condition that the date of every entry with a weight is a string that \<open>dateFromYMD\<close>
  reads as a valid date, the result is computed from an entry with a weight whose date is
  the latest of them: its weight over the square of the height divided by 100, each
  operation rounded as JavaScript rounds it, with the category of that value, which is
  underweight below 18.5, normal from 18.5 and below 25, overweight from 25 and below 30,
  obese otherwise. Without the condition on the dates the function need not return: the
  restore function stores the dates of a backup as they are, and on two entries with a
  weight and a date that is a number \<open>dateFromYMD\<close> throws a TypeError.
\<close>

theorem bmi_spec:
  "((\<not> truthy (userSettings st) \<or>
     (\<forall>h. get_prop ''heightCm'' (userSettings st) = Num h \<longrightarrow> isNaN h \<or> js_le0 h) \<or>
     \<not> list_ex has_weight (entries st)) \<longrightarrow>
      calculateCurrentBmi rt now st = Returns None) \<and>
   (truthy (userSettings st) \<and> get_prop ''heightCm'' (userSettings st) = Num h \<and> js_gt0 h \<and>
    list_ex has_weight (entries st) \<and>
    (\<forall>e\<in>set (entries st). has_weight e \<longrightarrow>
        (\<exists>y mi d ms. dateFromYMD rt now (date e) = Inr (LocalDate y mi d ms))) \<longrightarrow>
      (\<exists>e\<in>set (entries st). \<exists>w b.
         weight e = Num w \<and> \<not> isNaN w \<and>
         (\<forall>e'\<in>set (entries st). has_weight e' \<longrightarrow>
            date_key (dateFromYMD rt now (date e')) \<le> date_key (dateFromYMD rt now (date e))) \<and>
         b = js_div rt w (js_mul rt (js_div rt h (Fin 100)) (js_div rt h (Fin 100))) \<and>
         calculateCurrentBmi rt now st =
           Returns (Some (b,
             if js_less b (Fin 18.5) then Underweight
             else if js_less b (Fin 25) then NormalRange
             else if js_less b (Fin 30) then Overweight
             else Obese))))"
proof -
  have w: "\<exists>w. weight e = Num w \<and> \<not> isNaN w \<and> the_weight e = w" if "has_weight e" for e
    using that by (cases "weight e") (auto simp: has_weight_def the_weight_def split: if_splits)
  have "\<exists>e\<in>set (entries st). \<exists>w b.
         weight e = Num w \<and> \<not> isNaN w \<and>
         (\<forall>e'\<in>set (entries st). has_weight e' \<longrightarrow>
            date_key (dateFromYMD rt now (date e')) \<le> date_key (dateFromYMD rt now (date e))) \<and>
         b = js_div rt w (js_mul rt (js_div rt h (Fin 100)) (js_div rt h (Fin 100))) \<and>
         calculateCurrentBmi rt now st =
           Returns (Some (b,
             if js_less b (Fin 18.5) then Underweight
             else if js_less b (Fin 25) then NormalRange
             else if js_less b (Fin 30) then Overweight
             else Obese))"
    if a: "truthy (userSettings st)" "get_prop ''heightCm'' (userSettings st) = Num h" "js_gt0 h"
      "list_ex has_weight (entries st)"
      "\<forall>e\<in>set (entries st). has_weight e \<longrightarrow>
        (\<exists>y mi d ms. dateFromYMD rt now (date e) = Inr (LocalDate y mi d ms))"
  proof -
    from bmi_value[OF a] obtain e where e: "e \<in> set (entries st)" "has_weight e"
      and mx: "\<forall>e'\<in>set (entries st). has_weight e' \<longrightarrow>
              date_key (dateFromYMD rt now (date e')) \<le> date_key (dateFromYMD rt now (date e))"
      and res: "calculateCurrentBmi rt now st =
             Returns (Some
               (js_div rt (the_weight e) (js_mul rt (js_div rt h (Fin 100)) (js_div rt h (Fin 100))),
                bmi_category_of
                  (js_div rt (the_weight e)
                     (js_mul rt (js_div rt h (Fin 100)) (js_div rt h (Fin 100))))))"
      by blast
    from w[OF e(2)] obtain x where x: "weight e = Num x" "\<not> isNaN x" "the_weight e = x"
      by blast
    show ?thesis
      using e(1) x(1,2) mx res unfolding x(3) bmi_category_of_def
      by (intro bexI[of _ e] exI[of _ x] exI) auto
  qed
  then show ?thesis using bmi_none[of st rt now] by blast
qed

lemmas date_eval_defs = dateFromYMD_def example_builtins_def example_toNumber_def is_digit_def
  digits_val_def nth_number_def trunc_def add_days_def
  days_in_month_def leap_year_def eval_nat_numeral

theorem bmi_spec_witness:
  "truthy (userSettings example_state) \<and>
   get_prop ''heightCm'' (userSettings example_state) = Num (Fin 200) \<and> js_gt0 (Fin 200) \<and>
   list_ex has_weight (entries example_state) \<and>
   dateFromYMD example_builtins (LocalDate 2024 0 10 0) (date example_old_entry) =
     Inr (LocalDate 2024 0 1 0) \<and>
   dateFromYMD example_builtins (LocalDate 2024 0 10 0) (date example_other_entry) =
     Inr (LocalDate 2024 0 8 0) \<and>
   calculateCurrentBmi example_builtins (LocalDate 2024 0 10 0) example_state =
     Returns (Some (Fin 19.5, NormalRange)) \<and>
   \<not> truthy (userSettings (example_state\<lparr>userSettings := Null\<rparr>)) \<and>
   calculateCurrentBmi example_builtins (LocalDate 2024 0 10 0)
       (example_state\<lparr>userSettings := Null\<rparr>) = Returns None"
proof -
  let ?now = "LocalDate 2024 0 10 0"
  let ?rt = example_builtins
  have h1: "truthy (userSettings example_state)"
    by (simp add: example_state_def example_settings_def)
  have h2: "get_prop ''heightCm'' (userSettings example_state) = Num (Fin 200)"
    by (simp add: example_state_def example_settings_def)
  have h3: "js_gt0 (Fin 200)" by (simp add: js_gt0_def)
  have es: "entries example_state = [example_old_entry, example_other_entry]"
    by (simp add: example_state_def)
  have h4: "list_ex has_weight (entries example_state)"
    by (simp add: es example_old_entry_def has_weight_def)
  have d1: "dateFromYMD ?rt ?now (date example_old_entry) = Inr (LocalDate 2024 0 1 0)"
    by (simp add: example_old_entry_def date_eval_defs)
  have d2: "dateFromYMD ?rt ?now (date example_other_entry) = Inr (LocalDate 2024 0 8 0)"
    by (simp add: example_other_entry_def date_eval_defs)
  have h5: "\<forall>e\<in>set (entries example_state). has_weight e \<longrightarrow>
        (\<exists>y mi d ms. dateFromYMD ?rt ?now (date e) = Inr (LocalDate y mi d ms))"
    using d1 d2 by (simp add: es)
  from bmi_spec[where st = example_state and h = "Fin 200" and now = ?now and rt = ?rt]
    h1 h2 h3 h4 h5
  obtain e w b where e: "e \<in> set (entries example_state)"
    and we: "weight e = Num w"
    and mx: "\<forall>e'\<in>set (entries example_state). has_weight e' \<longrightarrow>
            date_key (dateFromYMD ?rt ?now (date e')) \<le> date_key (dateFromYMD ?rt ?now (date e))"
    and b: "b = js_div ?rt w (js_mul ?rt (js_div ?rt (Fin 200) (Fin 100))
                                         (js_div ?rt (Fin 200) (Fin 100)))"
    and res: "calculateCurrentBmi ?rt ?now example_state =
           Returns (Some (b,
             if js_less b (Fin 18.5) then Underweight
             else if js_less b (Fin 25) then NormalRange
             else if js_less b (Fin 30) then Overweight
             else Obese))"
    by blast
  have w2: "has_weight example_other_entry" by (simp add: example_other_entry_def has_weight_def)
  have "e \<noteq> example_old_entry"
  proof
    assume "e = example_old_entry"
    with mx w2 have "date_key (dateFromYMD ?rt ?now (date example_other_entry))
        \<le> date_key (dateFromYMD ?rt ?now (date example_old_entry))"
      by (simp add: es)
    then show False by (simp add: d1 d2)
  qed
  with e have "e = example_other_entry" by (simp add: es)
  with we have "w = Fin 78" by (simp add: example_other_entry_def)
  with b have "b = Fin 19.5" by (simp add: example_builtins_def)
  then have a: "calculateCurrentBmi ?rt ?now example_state =
      Returns (Some (Fin 19.5, NormalRange))"
    using res by simp
  have n1: "\<not> truthy (userSettings (example_state\<lparr>userSettings := Null\<rparr>))" by simp
  have c: "calculateCurrentBmi ?rt ?now (example_state\<lparr>userSettings := Null\<rparr>) = Returns None"
    using bmi_spec[where st = "example_state\<lparr>userSettings := Null\<rparr>" and now = ?now
        and rt = ?rt] n1 by blast
  from h1 h2 h3 h4 d1 d2 a n1 c show ?thesis by blast
qed

lemma numeric_dates_restored:
  "entries (fst (restoreFullBackupJsonFromText example_parse rev example_builtins
       ''numeric dates'' (example_state\<lparr>entries := []\<rparr>))) =
     [\<lparr> date = Num (Fin 6), weight = Num (Fin 81), activityType = Str [],
        notes_field = Str [], durationMinutes = Null \<rparr>,
      \<lparr> date = Num (Fin 5), weight = Num (Fin 80), activityType = Str [],
        notes_field = Str [], durationMinutes = Null \<rparr>]"
  by (simp add: restoreFullBackupJsonFromText_def example_parse_def numeric_dates_backup_def
      merged_entries_def existing_map_def import_log_def imported_entry_def map_values_def
      coerce_weight_def coerce_duration_def js_or_def saveEntries_def Let_def)

text \<open>
  Without the condition on the dates the statement fails on a store that the restore
  function produces. Restoring the backup with two records dated by the numbers 5 and 6
  into the store without entries leaves two entries with a weight, the height of the
  settings is 200, and \<open>calculateCurrentBmi\<close> throws a TypeError instead of returning a
  value.
\<close>

theorem bmi_numeric_dates_counterexample:
  "entries (fst (restoreFullBackupJsonFromText example_parse rev example_builtins
       ''numeric dates'' (example_state\<lparr>entries := []\<rparr>))) =
     [\<lparr> date = Num (Fin 6), weight = Num (Fin 81), activityType = Str [],
        notes_field = Str [], durationMinutes = Null \<rparr>,
      \<lparr> date = Num (Fin 5), weight = Num (Fin 80), activityType = Str [],
        notes_field = Str [], durationMinutes = Null \<rparr>] \<and>
   get_prop ''heightCm'' (userSettings (fst (restoreFullBackupJsonFromText example_parse rev
       example_builtins ''numeric dates'' (example_state\<lparr>entries := []\<rparr>)))) = Num (Fin 200) \<and>
   calculateCurrentBmi example_builtins (LocalDate 2024 0 10 0)
     (fst (restoreFullBackupJsonFromText example_parse rev example_builtins
        ''numeric dates'' (example_state\<lparr>entries := []\<rparr>))) = Throws TypeError"
proof -
  let ?st = "fst (restoreFullBackupJsonFromText example_parse rev example_builtins
       ''numeric dates'' (example_state\<lparr>entries := []\<rparr>))"
  have es: "entries ?st =
     [\<lparr> date = Num (Fin 6), weight = Num (Fin 81), activityType = Str [],
        notes_field = Str [], durationMinutes = Null \<rparr>,
      \<lparr> date = Num (Fin 5), weight = Num (Fin 80), activityType = Str [],
        notes_field = Str [], durationMinutes = Null \<rparr>]"
    by (rule numeric_dates_restored)
  have us: "userSettings ?st = example_settings"
    by (simp add: restoreFullBackupJsonFromText_def example_parse_def numeric_dates_backup_def
        saveEntries_def Let_def example_state_def)
  have h: "get_prop ''heightCm'' (userSettings ?st) = Num (Fin 200)"
    by (simp add: us example_settings_def)
  have uh: "usable_height (userSettings ?st) = Some (Fin 200)"
    by (simp add: us example_settings_def usable_height_def)
  have "calculateCurrentBmi example_builtins (LocalDate 2024 0 10 0) ?st = Throws TypeError"
    unfolding calculateCurrentBmi_def es uh
    by (simp add: has_weight_def sort_by_date_def dateFromYMD_def)
  with es h show ?thesis by blast
qed

subsection \<open>Date strings read back\<close>

lemma of_char_digit: "n < 10 \<Longrightarrow> (of_char (char_of (48 + n :: nat)) :: nat) = 48 + n"
  by simp

lemma is_digit_char_of: "n < 10 \<Longrightarrow> is_digit (char_of (48 + n :: nat))"
  by (simp add: is_digit_def of_char_digit del: of_char_of)

lemma digit_val_char_of: "n < 10 \<Longrightarrow> (of_char (char_of (48 + n :: nat)) :: nat) - 48 = n"
  by (simp add: of_char_digit del: of_char_of)

lemma show_nat_digits: "list_all is_digit (show_nat n)"
proof (induction n rule: show_nat.induct)
  case (1 n)
  show ?case
  proof (cases "n < 10")
    case True
    then show ?thesis by (subst show_nat.simps) (simp add: is_digit_char_of)
  next
    case False
    then have "list_all is_digit (show_nat (n div 10))" using 1 by simp
    moreover have "is_digit (char_of (48 + n mod 10))" by (rule is_digit_char_of) simp
    ultimately show ?thesis using False by (subst show_nat.simps) simp
  qed
qed

lemma show_nat_nonempty: "show_nat n \<noteq> []"
  by (subst show_nat.simps) simp

lemma show_nat_step: "10 \<le> n \<Longrightarrow> show_nat n = show_nat (n div 10) @ [char_of (48 + n mod 10)]"
  by (subst show_nat.simps) simp

lemma show_nat_length: "n < 10 ^ k \<Longrightarrow> 0 < k \<Longrightarrow> length (show_nat n) \<le> k"
proof (induction n arbitrary: k rule: show_nat.induct)
  case (1 n)
  show ?case
  proof (cases "n < 10")
    case True
    then have "length (show_nat n) = 1" by (subst show_nat.simps) simp
    with 1(3) show ?thesis by simp
  next
    case False
    obtain j where kj: "k = Suc j" using 1(3) by (cases k) auto
    have "0 < j"
    proof (rule ccontr)
      assume "\<not> 0 < j"
      then have "k = 1" using kj by simp
      with 1(2) False show False by simp
    qed
    with kj have k: "k = Suc j" "0 < j" by simp_all
    have "n div 10 < 10 ^ j" using 1(2) k(1) by (simp add: less_mult_imp_div_less mult.commute)
    from 1(1)[OF False this k(2)] have "length (show_nat (n div 10)) \<le> j" .
    then show ?thesis using False k(1) by (simp add: show_nat_step)
  qed
qed

lemma digits_val_snoc: "digits_val (xs @ [c]) = 10 * digits_val xs + (of_char c - 48)"
  by (simp add: digits_val_def)

lemma digits_val_show_nat: "digits_val (show_nat n) = n"
proof (induction n rule: show_nat.induct)
  case (1 n)
  show ?case
  proof (cases "n < 10")
    case True
    then show ?thesis by (subst show_nat.simps) (simp add: digits_val_def)
  next
    case False
    then have "digits_val (show_nat (n div 10)) = n div 10" using 1 by simp
    moreover have "(of_char (char_of (48 + n mod 10)) :: nat) - 48 = n mod 10"
      by (rule digit_val_char_of) simp
    ultimately show ?thesis using False
      by (subst show_nat.simps) (simp add: digits_val_snoc del: of_char_of)
  qed
qed

lemma digits_val_zeros: "digits_val (replicate k (CHR ''0'') @ xs) = digits_val xs"
proof -
  have "foldl (\<lambda>acc c. 10 * acc + (of_char c - 48)) 0 (replicate k (CHR ''0'')) = (0::nat)"
    by (induction k) simp_all
  then show ?thesis by (simp add: digits_val_def)
qed

lemma pad2_digits: "list_all is_digit (padStart2 (show_nat n))"
  using show_nat_digits[of n] by (auto simp: padStart2_def is_digit_def list_all_iff)

lemma pad2_nonempty: "padStart2 (show_nat n) \<noteq> []"
  by (simp add: padStart2_def show_nat_nonempty)

lemma pad2_value: "digits_val (padStart2 (show_nat n)) = n"
  by (simp add: padStart2_def digits_val_zeros digits_val_show_nat)

lemma pad2_length: "2 \<le> length (padStart2 s)"
  by (simp add: padStart2_def)

lemma pad2_short: "n < 100 \<Longrightarrow> length (padStart2 (show_nat n)) = 2"
proof -
  assume "n < 100"
  then have "length (show_nat n) \<le> 2" using show_nat_length[of n 2] by simp
  moreover have "1 \<le> length (show_nat n)"
    using show_nat_nonempty[of n] by (cases "show_nat n") auto
  ultimately show ?thesis by (auto simp: padStart2_def)
qed

lemma split_dash_no_dash: "CHR ''-'' \<notin> set a \<Longrightarrow> split_dash a = [a]"
  by (induction a) auto

lemma split_dash_append:
  "CHR ''-'' \<notin> set a \<Longrightarrow> split_dash (a @ CHR ''-'' # r) = a # split_dash r"
  by (induction a) auto

lemma digits_no_dash: "list_all is_digit ds \<Longrightarrow> CHR ''-'' \<notin> set ds"
  by (auto simp: list_all_iff is_digit_def)

lemma day_after_iter:
  "1 + k \<le> days_in_month y mi \<Longrightarrow>
     (day_after ^^ k) (LocalDate y mi 1 ms) = LocalDate y mi (1 + k) ms"
  by (induction k) auto

lemma trunc_real_nat: "trunc (real n) = int n"
  by (simp add: trunc_def)

lemma trunc_real_int: "trunc (real_of_int i) = i"
  by (simp add: trunc_def)

lemma format_calendar_day:
  assumes "calendar_day (LocalDate y mi d ms)"
  shows "formatDateToYMD (LocalDate y mi d ms) =
           show_nat (nat y) @ CHR ''-'' # padStart2 (show_nat (mi + 1)) @ CHR ''-'' #
             padStart2 (show_nat d)"
  using assms by (simp add: show_int_def)

lemma toNumber_digits:
  assumes "reads_numerals rt" "list_all is_digit ds" "ds \<noteq> []" "length ds \<le> 15"
  shows "toNumber rt ds = Fin (real (digits_val ds))"
  using assms unfolding reads_numerals_def by blast

lemma dateFromYMD_format:
  assumes rn: "reads_numerals rt" and cd: "calendar_day c"
  shows "dateFromYMD rt now (Str (formatDateToYMD c)) = Inr c"
proof -
  obtain y mi d ms where c: "c = LocalDate y mi d ms" using cd by (cases c) auto
  from cd c have v: "100 \<le> y" "y \<le> 275759" "mi < 12" "1 \<le> d" "d \<le> days_in_month y mi" "ms = 0"
    by auto
  let ?Y = "show_nat (nat y)" and ?M = "padStart2 (show_nat (mi + 1))"
    and ?D = "padStart2 (show_nat d)"
  have f: "formatDateToYMD c = ?Y @ CHR ''-'' # ?M @ CHR ''-'' # ?D"
    using cd unfolding c by (rule format_calendar_day)
  have sp: "split_dash (formatDateToYMD c) = [?Y, ?M, ?D]"
    unfolding f
    by (simp add: split_dash_append split_dash_no_dash digits_no_dash show_nat_digits pad2_digits)
  have d31: "d \<le> 31" using v(5) by (simp add: days_in_month_def split: if_splits)
  have ly: "length ?Y \<le> 15"
  proof -
    have "nat y < 10 ^ 6" using v(2) by simp
    then have "length ?Y \<le> 6" by (rule show_nat_length) simp
    then show ?thesis by simp
  qed
  have lm: "length ?M \<le> 15" using pad2_short[of "mi + 1"] v(3) by simp
  have ld: "length ?D \<le> 15" using pad2_short[of d] d31 by simp
  have ny: "toNumber rt ?Y = Fin (real_of_int y)"
    using toNumber_digits[OF rn show_nat_digits show_nat_nonempty ly] v(1)
    by (simp add: digits_val_show_nat)
  have nm: "toNumber rt ?M = Fin (real (mi + 1))"
    using toNumber_digits[OF rn pad2_digits pad2_nonempty lm] by (simp only: pad2_value)
  have nd: "toNumber rt ?D = Fin (real d)"
    using toNumber_digits[OF rn pad2_digits pad2_nonempty ld] by (simp only: pad2_value)
  have parts: "map (toNumber rt) (split_dash (formatDateToYMD c)) =
      [Fin (real_of_int y), Fin (real (mi + 1)), Fin (real d)]"
    unfolding sp using ny nm nd by simp
  have m1: "js_minus1 rt (Fin (real (mi + 1))) = Fin (real mi)"
  proof -
    have "round_double rt (real mi) = Fin (real mi)"
      using rn v(3) unfolding reads_numerals_def by blast
    then show ?thesis by simp
  qed
  have m1': "js_minus1 rt (Fin (1 + real mi)) = Fin (real mi)"
    using m1 by (simp only: of_nat_add of_nat_1 add.commute)
  have t: "truthy (Str (formatDateToYMD c))" unfolding f by simp
  have nw: "new_Date (Fin (real_of_int y)) (Fin (real mi)) (Fin (real d)) = c"
  proof -
    have k: "nat (int d - 1) = d - 1" by simp
    have "(day_after ^^ (d - 1)) (LocalDate y mi 1 0) = LocalDate y mi (1 + (d - 1)) 0"
      using v(4,5) by (intro day_after_iter) simp
    then have "(day_after ^^ (d - 1)) (LocalDate y mi 1 0) = LocalDate y mi d 0"
      using v(4) by simp
    then show ?thesis
      unfolding c
      using v by (simp add: trunc_real_nat trunc_real_int add_days_def Let_def k)
  qed
  have "dateFromYMD rt now (Str (formatDateToYMD c)) =
      Inr (new_Date (nth_number (map (toNumber rt) (split_dash (formatDateToYMD c))) 0)
             (js_minus1 rt (nth_number (map (toNumber rt) (split_dash (formatDateToYMD c))) 1))
             (nth_number (map (toNumber rt) (split_dash (formatDateToYMD c))) 2))"
    using t by (simp add: dateFromYMD_def Let_def del: formatDateToYMD.simps truthy.simps)
  also have "\<dots> = Inr (new_Date (Fin (real_of_int y)) (Fin (real mi)) (Fin (real d)))"
    unfolding parts by (simp add: nth_number_def m1' del: js_minus1.simps)
  finally show ?thesis using nw by simp
qed


subsection \<open>The day before a calendar day\<close>

lemma svz_str: "same_value_zero x (Str s) \<longleftrightarrow> x = Str s"
  by (cases x) auto

lemma has_str: "list_ex (\<lambda>x. same_value_zero x (Str s)) D \<longleftrightarrow> Str s \<in> set D"
  by (auto simp: list_ex_iff svz_str)

lemma show_nat_length3: "100 \<le> n \<Longrightarrow> 3 \<le> length (show_nat n)"
proof -
  assume a: "100 \<le> n"
  then have b: "10 \<le> n" "10 \<le> n div 10" by simp_all
  have "1 \<le> length (show_nat (n div 10 div 10))"
    using show_nat_nonempty[of "n div 10 div 10"] by (cases "show_nat (n div 10 div 10)") auto
  then show ?thesis
    unfolding show_nat_step[OF b(1)] show_nat_step[OF b(2)] by simp
qed

lemma format_length: "calendar_day c \<Longrightarrow> 9 \<le> length (formatDateToYMD c)"
proof -
  assume a: "calendar_day c"
  then obtain y mi d ms where c: "c = LocalDate y mi d ms" by (cases c) auto
  have "100 \<le> nat y" using a c by auto
  then have "3 \<le> length (show_nat (nat y))" by (rule show_nat_length3)
  moreover have "2 \<le> length (padStart2 (show_nat (mi + 1)))" by (rule pad2_length)
  moreover have "2 \<le> length (padStart2 (show_nat d))" by (rule pad2_length)
  ultimately show ?thesis
    unfolding c format_calendar_day[OF a[unfolded c]] by simp
qed

lemma format_year99: "formatDateToYMD (LocalDate 99 11 31 0) = ''99-12-31''"
  by code_simp

lemma days_in_month_bounds: "28 \<le> days_in_month y mi \<and> days_in_month y mi \<le> 31"
  by (simp add: days_in_month_def)

lemma time_clip_years:
  "- 271820 \<le> y \<Longrightarrow> y \<le> 275759 \<Longrightarrow> time_clip (LocalDate y mi d ms) = LocalDate y mi d ms"
  by (simp add: less_eq_prod_def less_prod_def)

lemma prev_day_calendar:
  assumes "calendar_day c"
  shows "prev_day c = day_before c \<and>
         (calendar_day (prev_day c) \<or> prev_day c = LocalDate 99 11 31 0)"
proof -
  obtain y mi d ms where c: "c = LocalDate y mi d ms" using assms by (cases c) auto
  from assms c have v: "100 \<le> y" "y \<le> 275759" "mi < 12" "1 \<le> d" "d \<le> days_in_month y mi" "ms = 0"
    by auto
  have b: "1 \<le> days_in_month y (mi - 1)" using days_in_month_bounds[of y "mi - 1"] by simp
  have e: "days_in_month (y - 1) 11 = 31" by (simp add: days_in_month_def)
  obtain y' mi' d' where db: "day_before c = LocalDate y' mi' d' ms" "y - 1 \<le> y'" "y' \<le> y"
    unfolding c by (cases "1 < d"; cases "0 < mi") auto
  have p: "prev_day c = day_before c"
    unfolding prev_day_def db(1) using db(2,3) v(1,2) by (intro time_clip_years) auto
  have "calendar_day (day_before c) \<or> day_before c = LocalDate 99 11 31 0"
    unfolding c using v b e by auto
  with p show ?thesis by simp
qed

lemma prev_day_measure:
  assumes "calendar_day c" "calendar_day (prev_day c)"
  shows "day_measure (prev_day c) < day_measure c"
proof -
  obtain y mi d ms where c: "c = LocalDate y mi d ms" using assms by (cases c) auto
  have p: "prev_day (LocalDate y mi d ms) = day_before (LocalDate y mi d ms)"
    using prev_day_calendar[OF assms(1), unfolded c] by (rule conjunct1)
  have b: "days_in_month y (mi - 1) \<le> 31" using days_in_month_bounds[of y "mi - 1"] by simp
  show ?thesis
  proof (cases "1 < d")
    case True
    then show ?thesis unfolding c p by simp
  next
    case d1: False
    show ?thesis
    proof (cases "0 < mi")
      case True
      with d1 assms b show ?thesis unfolding c p by auto
    next
      case False
      with d1 assms have y: "101 \<le> y" unfolding c p by auto
      then have "nat (y - 1 - 100) * 400 + 400 = nat (y - 100) * 400"
        by (simp add: nat_diff_distrib algebra_simps)
      with False d1 assms show ?thesis unfolding c p by auto
    qed
  qed
qed

lemma year99_not_proper:
  "proper_dates D \<Longrightarrow> Str (formatDateToYMD (LocalDate 99 11 31 0)) \<notin> set D"
proof
  assume p: "proper_dates D" and "Str (formatDateToYMD (LocalDate 99 11 31 0)) \<in> set D"
  then obtain c where c: "calendar_day c"
      "Str (formatDateToYMD (LocalDate 99 11 31 0)) = Str (formatDateToYMD c)"
    unfolding proper_dates_def by blast
  then have "formatDateToYMD c = ''99-12-31''" using format_year99 by simp
  then have "length (formatDateToYMD c) = 8" by simp
  with format_length[OF c(1)] show False by simp
qed

lemma format_at_midnight: "formatDateToYMD (at_midnight c) = formatDateToYMD c"
  by (cases c) simp_all

lemma time_clip_at_midnight: "time_clip (at_midnight c) = at_midnight (time_clip c)"
  by (cases c) simp_all

lemma day_before_at_midnight: "day_before (at_midnight c) = at_midnight (day_before c)"
  by (cases c) simp_all

lemma prev_day_at_midnight: "prev_day (at_midnight c) = at_midnight (prev_day c)"
  by (simp add: prev_day_def day_before_at_midnight time_clip_at_midnight)

lemma prev_day_year:
  assumes "calendar_day c" "101 \<le> year_of c"
  shows "calendar_day (prev_day c) \<and> year_of c - 1 \<le> year_of (prev_day c)"
proof -
  obtain y mi d ms where c: "c = LocalDate y mi d ms" using assms by (cases c) auto
  have p: "prev_day (LocalDate y mi d ms) = day_before (LocalDate y mi d ms)"
    using prev_day_calendar[OF assms(1), unfolded c] by (rule conjunct1)
  have "day_before (LocalDate y mi d ms) \<noteq> LocalDate 99 11 31 0" using assms(2) unfolding c by auto
  with prev_day_calendar[OF assms(1), unfolded c] have "calendar_day (prev_day c)"
    unfolding c p by blast
  moreover have "year_of c - 1 \<le> year_of (prev_day c)" unfolding c p by simp
  ultimately show ?thesis by simp
qed

lemma prev_day_key:
  assumes "calendar_day c"
  shows "date_key (Inr (prev_day c)) < date_key (Inr c)"
proof -
  obtain y mi d ms where c: "c = LocalDate y mi d ms" using assms by (cases c) auto
  have p: "prev_day (LocalDate y mi d ms) = day_before (LocalDate y mi d ms)"
    using prev_day_calendar[OF assms(1), unfolded c] by (rule conjunct1)
  show ?thesis unfolding c p by (auto simp: less_prod_def)
qed

lemma date_key_inj: "calendar_day a \<Longrightarrow> calendar_day b \<Longrightarrow>
    date_key (Inr a) = date_key (Inr b) \<Longrightarrow> a = b"
  by (cases a; cases b) auto

lemma format_inj:
  assumes "reads_numerals rt" "calendar_day a" "calendar_day b"
    "formatDateToYMD a = formatDateToYMD b"
  shows "a = b"
proof -
  have "Inr a = dateFromYMD rt InvalidDate (Str (formatDateToYMD a))"
    using dateFromYMD_format[OF assms(1,2)] by (rule sym)
  also have "\<dots> = dateFromYMD rt InvalidDate (Str (formatDateToYMD b))"
    by (simp only: assms(4))
  also have "\<dots> = Inr b" using assms(1,3) by (rule dateFromYMD_format)
  finally show ?thesis by (simp only: sum.inject)
qed


subsection \<open>The streak loop\<close>

lemma streak_loop_returns:
  assumes "proper_dates D" "calendar_day c"
  shows "\<exists>n. streak_loop D c s = Some (s + n) \<and>
           (\<forall>k<n. Str (formatDateToYMD ((prev_day ^^ Suc k) c)) \<in> set D) \<and>
           Str (formatDateToYMD ((prev_day ^^ Suc n) c)) \<notin> set D"
  using assms(2)
proof (induction "day_measure c" arbitrary: c s rule: less_induct)
  case less
  let ?p = "prev_day c"
  show ?case
  proof (cases "Str (formatDateToYMD ?p) \<in> set D")
    case False
    then have "streak_loop D c s = Some s"
      by (subst streak_loop.simps) (simp add: has_str)
    with False show ?thesis by (intro exI[of _ 0]) simp
  next
    case True
    have cd: "calendar_day ?p"
    proof (rule ccontr)
      assume "\<not> calendar_day ?p"
      with prev_day_calendar[OF less.prems] have "?p = LocalDate 99 11 31 0" by blast
      with True have "Str (formatDateToYMD (LocalDate 99 11 31 0)) \<in> set D" by (simp only:)
      with year99_not_proper[OF assms(1)] show False by blast
    qed
    have m: "day_measure ?p < day_measure c"
      using less.prems cd by (rule prev_day_measure)
    from less.hyps[OF m cd, of "Suc s"] obtain n where
      n: "streak_loop D ?p (Suc s) = Some (Suc s + n)"
         "\<forall>k<n. Str (formatDateToYMD ((prev_day ^^ Suc k) ?p)) \<in> set D"
         "Str (formatDateToYMD ((prev_day ^^ Suc n) ?p)) \<notin> set D"
      by blast
    have l: "streak_loop D c s = streak_loop D ?p (Suc s)"
      using True by (subst streak_loop.simps) (simp add: has_str)
    have sh: "(prev_day ^^ Suc (Suc k)) c = (prev_day ^^ Suc k) ?p" for k
      by (simp add: funpow_swap1)
    have a: "\<forall>k<Suc n. Str (formatDateToYMD ((prev_day ^^ Suc k) c)) \<in> set D"
    proof (intro allI impI)
      fix k assume "k < Suc n"
      show "Str (formatDateToYMD ((prev_day ^^ Suc k) c)) \<in> set D"
      proof (cases k)
        case 0
        then show ?thesis using True by simp
      next
        case (Suc k')
        with \<open>k < Suc n\<close> n(2) have "Str (formatDateToYMD ((prev_day ^^ Suc k') ?p)) \<in> set D"
          by simp
        then show ?thesis unfolding Suc sh .
      qed
    qed
    have b: "Str (formatDateToYMD ((prev_day ^^ Suc (Suc n)) c)) \<notin> set D"
      using n(3) unfolding sh .
    show ?thesis
      using l n(1) a b by (intro exI[of _ "Suc n"]) simp
  qed
qed

lemma set_add_prim: "is_primitive v \<Longrightarrow> set (set_add xs v) = insert v (set xs)"
proof -
  assume p: "is_primitive v"
  have "same_value_zero x v \<longleftrightarrow> x = v" for x
    by (cases x; cases v) (use p in auto)
  then show ?thesis by (auto simp: set_add_def list_ex_iff)
qed

lemma new_Set_set_aux:
  "\<forall>v\<in>set vs. is_primitive v \<Longrightarrow> set (foldl set_add acc vs) = set acc \<union> set vs"
  by (induction vs arbitrary: acc) (auto simp: set_add_prim)

lemma new_Set_set: "\<forall>v\<in>set vs. is_primitive v \<Longrightarrow> set (new_Set vs) = set vs"
  by (simp add: new_Set_def new_Set_set_aux)

lemma sort_desc_valid:
  assumes rn: "reads_numerals rt" and "proper_dates U" "U \<noteq> []"
  shows "\<exists>ys. sort_by_date True rt now (\<lambda>d. d) U = Returns ys \<and> hd ys \<in> set U \<and>
           (\<forall>x\<in>set U. date_key (dateFromYMD rt now x) \<le> date_key (dateFromYMD rt now (hd ys)))"
proof (cases "length U \<le> 1")
  case True
  with assms(3) obtain x where "U = [x]" by (cases U) auto
  then show ?thesis by (simp add: sort_by_date_def)
next
  case False
  have v: "\<exists>c. calendar_day c \<and> dateFromYMD rt now x = Inr c" if "x \<in> set U" for x
  proof -
    from assms(2) that obtain c where c: "calendar_day c" "x = Str (formatDateToYMD c)"
      unfolding proper_dates_def by blast
    from dateFromYMD_format[OF rn c(1), of now] c show ?thesis by blast
  qed
  have a: "\<not> list_ex (\<lambda>x. dateFromYMD rt now x = Inl TypeError) U"
  proof
    assume "list_ex (\<lambda>x. dateFromYMD rt now x = Inl TypeError) U"
    then obtain x where "x \<in> set U" "dateFromYMD rt now x = Inl TypeError"
      unfolding list_ex_iff by blast
    with v[of x] show False by auto
  qed
  have b: "\<not> list_ex (\<lambda>x. dateFromYMD rt now x = Inr InvalidDate) U"
  proof
    assume "list_ex (\<lambda>x. dateFromYMD rt now x = Inr InvalidDate) U"
    then obtain x where "x \<in> set U" "dateFromYMD rt now x = Inr InvalidDate"
      unfolding list_ex_iff by blast
    with v[of x] show False by auto
  qed
  let ?k = "\<lambda>x. date_key (dateFromYMD rt now x)"
  let ?s = "sort_key ?k (rev U)"
  have r: "sort_by_date True rt now (\<lambda>d. d) U = Returns (rev ?s)"
    using False a b by (simp add: sort_by_date_def)
  have ne: "rev U \<noteq> []" using assms(3) by simp
  have sne: "?s \<noteq> []" using ne by (metis length_0_conv length_sort)
  have h: "hd (rev ?s) = last ?s" using sne by (simp add: hd_rev)
  from last_sort_key_max[OF ne, of ?k]
  have "last ?s \<in> set U \<and> (\<forall>x\<in>set U. ?k x \<le> ?k (last ?s))" by simp
  then show ?thesis
    using r h by (intro exI[of _ "rev ?s"]) (simp only: simp_thms, blast)
qed

lemma streak_general:
  assumes rn: "reads_numerals rt" and ne: "entries st \<noteq> []"
    and pr: "\<forall>e\<in>set (entries st). \<exists>c. calendar_day c \<and> date e = Str (formatDateToYMD c)"
  shows "\<exists>r n. calendar_day r \<and> Str (formatDateToYMD r) \<in> date ` set (entries st) \<and>
           (\<forall>c. calendar_day c \<and> Str (formatDateToYMD c) \<in> date ` set (entries st) \<longrightarrow>
                date_key (Inr c) \<le> date_key (Inr r)) \<and>
           (\<forall>k<n. Str (formatDateToYMD ((prev_day ^^ Suc k) r)) \<in> date ` set (entries st)) \<and>
           Str (formatDateToYMD ((prev_day ^^ Suc n) r)) \<notin> date ` set (entries st) \<and>
           calculateCurrentStreak rt now st =
             Returns (if formatDateToYMD r \<noteq> formatDateToYMD now \<and>
                         formatDateToYMD r \<noteq> formatDateToYMD (prev_day now)
                      then 0 else Suc n)"
proof -
  let ?D = "date ` set (entries st)"
  let ?U = "new_Set (map date (entries st))"
  have prim: "\<forall>v\<in>set (map date (entries st)). is_primitive v"
    using pr by fastforce
  have su: "set ?U = ?D" using new_Set_set[OF prim] by simp
  have pu: "proper_dates ?U"
    unfolding proper_dates_def su using pr by fastforce
  have une: "?U \<noteq> []" using su ne by (metis empty_is_image empty_set set_empty)
  from sort_desc_valid[OF rn pu une, of now] obtain ys where
    ys: "sort_by_date True rt now (\<lambda>d. d) ?U = Returns ys" "hd ys \<in> set ?U"
      "\<forall>x\<in>set ?U. date_key (dateFromYMD rt now x) \<le> date_key (dateFromYMD rt now (hd ys))"
    by blast
  from ys(2) pu obtain r where r: "calendar_day r" "hd ys = Str (formatDateToYMD r)"
    unfolding proper_dates_def by blast
  have dr: "dateFromYMD rt now (hd ys) = Inr r"
    unfolding r(2) using rn r(1) by (rule dateFromYMD_format)
  have rin: "Str (formatDateToYMD r) \<in> ?D" using ys(2) su r(2) by simp
  have mx: "date_key (Inr c) \<le> date_key (Inr r)"
    if "calendar_day c" "Str (formatDateToYMD c) \<in> ?D" for c
  proof -
    from that(2) su have "Str (formatDateToYMD c) \<in> set ?U" by simp
    with ys(3) have "date_key (dateFromYMD rt now (Str (formatDateToYMD c)))
        \<le> date_key (dateFromYMD rt now (hd ys))" by blast
    then show ?thesis unfolding dr dateFromYMD_format[OF rn that(1)] .
  qed
  from streak_loop_returns[OF pu r(1), of 1] obtain n where
    n: "streak_loop ?U r 1 = Some (1 + n)"
       "\<forall>k<n. Str (formatDateToYMD ((prev_day ^^ Suc k) r)) \<in> set ?U"
       "Str (formatDateToYMD ((prev_day ^^ Suc n) r)) \<notin> set ?U"
    by blast
  have res: "calculateCurrentStreak rt now st =
             Returns (if formatDateToYMD r \<noteq> formatDateToYMD now \<and>
                         formatDateToYMD r \<noteq> formatDateToYMD (prev_day now)
                      then 0 else Suc n)"
  proof -
    have s1: "calculateCurrentStreak rt now st =
        (if hd ys \<noteq> Str (formatDateToYMD now) \<and> hd ys \<noteq> Str (formatDateToYMD (prev_day now))
         then Returns 0 else Returns (Suc n))"
      unfolding calculateCurrentStreak_def Let_def getTodayDateString_def ys(1)
      using ne n(1) dr by (simp del: formatDateToYMD.simps)
    show ?thesis unfolding s1 r(2) by (simp del: formatDateToYMD.simps)
  qed
  show ?thesis
    using r(1) rin mx n(2,3) res unfolding su by blast
qed

lemma streak_value:
  assumes rn: "reads_numerals rt" and ne: "entries st \<noteq> []"
    and pr: "\<forall>e\<in>set (entries st). \<exists>c. calendar_day c \<and> date e = Str (formatDateToYMD c)"
    and r0: "calendar_day r0" "Str (formatDateToYMD r0) \<in> date ` set (entries st)"
    and mx: "\<forall>c. calendar_day c \<and> Str (formatDateToYMD c) \<in> date ` set (entries st) \<longrightarrow>
                date_key (Inr c) \<le> date_key (Inr r0)"
    and run: "\<forall>k<n0. Str (formatDateToYMD ((prev_day ^^ Suc k) r0)) \<in> date ` set (entries st)"
    and stop: "Str (formatDateToYMD ((prev_day ^^ Suc n0) r0)) \<notin> date ` set (entries st)"
  shows "calculateCurrentStreak rt now st =
           Returns (if formatDateToYMD r0 \<noteq> formatDateToYMD now \<and>
                       formatDateToYMD r0 \<noteq> formatDateToYMD (prev_day now)
                    then 0 else Suc n0)"
proof -
  from streak_general[OF rn ne pr, of now] obtain r n where
    g: "calendar_day r" "Str (formatDateToYMD r) \<in> date ` set (entries st)"
       "\<forall>c. calendar_day c \<and> Str (formatDateToYMD c) \<in> date ` set (entries st) \<longrightarrow>
                date_key (Inr c) \<le> date_key (Inr r)"
       "\<forall>k<n. Str (formatDateToYMD ((prev_day ^^ Suc k) r)) \<in> date ` set (entries st)"
       "Str (formatDateToYMD ((prev_day ^^ Suc n) r)) \<notin> date ` set (entries st)"
       "calculateCurrentStreak rt now st =
             Returns (if formatDateToYMD r \<noteq> formatDateToYMD now \<and>
                         formatDateToYMD r \<noteq> formatDateToYMD (prev_day now)
                      then 0 else Suc n)"
    by blast
  have "date_key (Inr r) \<le> date_key (Inr r0)" using mx g(1,2) by blast
  moreover have "date_key (Inr r0) \<le> date_key (Inr r)" using g(3) r0 by blast
  ultimately have rr: "r = r0" using date_key_inj[OF g(1) r0(1)] by simp
  have "\<not> n < n0" using run g(5) unfolding rr by blast
  moreover have "\<not> n0 < n" using g(4) stop unfolding rr by blast
  ultimately have "n = n0" by simp
  with g(6) rr show ?thesis by simp
qed


subsection \<open>Days counted back from the current time\<close>

lemma at_midnight_calendar: "calendar_day r \<Longrightarrow> at_midnight r = r"
  by (cases r) simp_all

lemma clock_midnight:
  "clock_date now \<Longrightarrow> calendar_day (at_midnight now) \<and> 1970 \<le> year_of (at_midnight now)"
  by (cases now) simp_all

lemma funpow_prev_calendar:
  "calendar_day c \<Longrightarrow> 100 + int k \<le> year_of c \<Longrightarrow>
     calendar_day ((prev_day ^^ k) c) \<and> year_of c - int k \<le> year_of ((prev_day ^^ k) c)"
proof (induction k)
  case 0
  then show ?case by simp
next
  case (Suc k)
  then have ih: "calendar_day ((prev_day ^^ k) c)" "year_of c - int k \<le> year_of ((prev_day ^^ k) c)"
    by simp_all
  have "101 \<le> year_of ((prev_day ^^ k) c)" using ih(2) Suc.prems(2) by simp
  from prev_day_year[OF ih(1) this] ih(2) show ?case by simp
qed

lemma days_before_calendar:
  assumes "clock_date now" "k \<le> 1800"
  shows "calendar_day (days_before k now)"
proof -
  from clock_midnight[OF assms(1)]
  have "calendar_day (at_midnight now)" "100 + int k \<le> year_of (at_midnight now)"
    using assms(2) by simp_all
  from funpow_prev_calendar[OF this] show ?thesis by (simp add: days_before_def)
qed

lemma days_before_Suc: "days_before (Suc k) now = prev_day (days_before k now)"
  by (simp add: days_before_def)

lemma days_before_add:
  "clock_date now \<Longrightarrow> k \<le> 1800 \<Longrightarrow>
     (prev_day ^^ i) (days_before k now) = days_before (k + i) now"
  by (simp add: days_before_def funpow_add add.commute)

lemma days_before_key_step:
  assumes "clock_date now" "k \<le> 1800"
  shows "date_key (Inr (days_before (Suc k) now)) < date_key (Inr (days_before k now))"
  unfolding days_before_Suc using days_before_calendar[OF assms] by (rule prev_day_key)

lemma days_before_key_less:
  assumes "clock_date now"
  shows "j < k \<Longrightarrow> k \<le> 1800 \<Longrightarrow>
     date_key (Inr (days_before k now)) < date_key (Inr (days_before j now))"
proof (induction k)
  case 0
  then show ?case by simp
next
  case (Suc k)
  have s: "date_key (Inr (days_before (Suc k) now)) < date_key (Inr (days_before k now))"
    using assms Suc.prems(2) by (intro days_before_key_step) simp_all
  show ?case
  proof (cases "j = k")
    case True
    with s show ?thesis by simp
  next
    case False
    with Suc.prems have "j < k" "k \<le> 1800" by simp_all
    from Suc.IH[OF this] s show ?thesis by (rule less_trans[rotated])
  qed
qed

lemma days_before_inj:
  assumes "clock_date now" "j \<le> 1800" "k \<le> 1800" "days_before j now = days_before k now"
  shows "j = k"
proof (rule ccontr)
  assume "j \<noteq> k"
  then consider "j < k" | "k < j" by linarith
  then show False
  proof cases
    case 1
    from days_before_key_less[OF assms(1) 1 assms(3)] assms(4) show False by simp
  next
    case 2
    from days_before_key_less[OF assms(1) 2 assms(2)] assms(4) show False by simp
  qed
qed

lemma ymd_of_inj:
  assumes "reads_numerals rt" "calendar_day a" "calendar_day b" "ymd_of a = ymd_of b"
  shows "a = b"
  using format_inj[OF assms(1,2,3)] assms(4) by (simp only: ymd_of_def jsval.inject)

lemma format_today: "formatDateToYMD (days_before 0 now) = formatDateToYMD now"
  by (simp add: days_before_def format_at_midnight del: formatDateToYMD.simps)

lemma format_yesterday: "formatDateToYMD (days_before 1 now) = formatDateToYMD (prev_day now)"
proof -
  have "days_before 1 now = at_midnight (prev_day now)"
    by (simp add: days_before_def prev_day_at_midnight)
  then show ?thesis by (simp only: format_at_midnight)
qed

lemma streak_offsets:
  assumes rn: "reads_numerals rt" and clock: "clock_date now"
    and D: "date ` set (entries st) = (\<lambda>k. ymd_of (days_before k now)) ` K"
    and mK: "m \<in> K" and K: "\<forall>k\<in>K. m \<le> k \<and> k \<le> 1000"
    and run: "\<forall>i<n. m + Suc i \<in> K" and stop: "m + Suc n \<notin> K"
  shows "calculateCurrentStreak rt now st = Returns (if 1 < m then 0 else Suc n)"
proof -
  let ?D = "date ` set (entries st)"
  let ?r = "days_before m now"
  have m1000: "m \<le> 1000" using mK K by blast
  have n1000: "m + n \<le> 1000"
  proof (cases n)
    case 0
    with m1000 show ?thesis by simp
  next
    case (Suc i)
    with run have "m + Suc i \<in> K" by simp
    with K have "m + Suc i \<le> 1000" by blast
    with Suc show ?thesis by simp
  qed
  have cal: "calendar_day (days_before k now)" if "k \<le> 1800" for k
    using clock that by (rule days_before_calendar)
  have ne: "entries st \<noteq> []"
  proof
    assume "entries st = []"
    then have "?D = {}" by simp
    then have "(\<lambda>k. ymd_of (days_before k now)) ` K = {}" unfolding D .
    then have "K = {}" by (simp only: image_is_empty)
    with mK show False by blast
  qed
  have pr: "\<forall>e\<in>set (entries st). \<exists>c. calendar_day c \<and> date e = Str (formatDateToYMD c)"
  proof
    fix e assume "e \<in> set (entries st)"
    then have "date e \<in> ?D" by (rule imageI)
    then have "date e \<in> (\<lambda>k. ymd_of (days_before k now)) ` K" unfolding D .
    then obtain k where k: "k \<in> K" "date e = ymd_of (days_before k now)" by blast
    from k(1) K have "k \<le> 1000" by blast
    then have "k \<le> 1800" by simp
    from cal[OF this] k(2)
    show "\<exists>c. calendar_day c \<and> date e = Str (formatDateToYMD c)"
      unfolding ymd_of_def by blast
  qed
  have r0: "calendar_day ?r" using m1000 by (intro cal) simp
  have rin: "Str (formatDateToYMD ?r) \<in> ?D"
  proof -
    have "ymd_of ?r \<in> (\<lambda>k. ymd_of (days_before k now)) ` K" using mK by (rule imageI)
    then have "ymd_of ?r \<in> ?D" unfolding D .
    then show ?thesis unfolding ymd_of_def .
  qed
  have offs: "\<exists>k\<in>K. c = days_before k now"
    if "calendar_day c" "Str (formatDateToYMD c) \<in> ?D" for c
  proof -
    from that(2) have "ymd_of c \<in> ?D" unfolding ymd_of_def .
    then have "ymd_of c \<in> (\<lambda>k. ymd_of (days_before k now)) ` K" unfolding D .
    then obtain k where k: "k \<in> K" "ymd_of c = ymd_of (days_before k now)" by blast
    from k(1) K have "k \<le> 1000" by blast
    then have "k \<le> 1800" by simp
    from ymd_of_inj[OF rn that(1) cal[OF this] k(2)] k(1) show ?thesis by blast
  qed
  have mx: "\<forall>c. calendar_day c \<and> Str (formatDateToYMD c) \<in> ?D \<longrightarrow>
                date_key (Inr c) \<le> date_key (Inr ?r)"
  proof (intro allI impI)
    fix c assume a: "calendar_day c \<and> Str (formatDateToYMD c) \<in> ?D"
    with offs obtain k where k: "k \<in> K" "c = days_before k now" by blast
    from k(1) K have "m \<le> k \<and> k \<le> 1000" by blast
    then have mk: "m \<le> k" "k \<le> 1800" by simp_all
    show "date_key (Inr c) \<le> date_key (Inr ?r)"
    proof (cases "m = k")
      case True
      with k(2) show ?thesis by simp
    next
      case False
      with mk have "m < k" by simp
      from days_before_key_less[OF clock this mk(2)] k(2) show ?thesis by simp
    qed
  qed
  have shift: "(prev_day ^^ i) ?r = days_before (m + i) now" for i
    using clock m1000 by (intro days_before_add) simp_all
  have rn': "\<forall>k<n. Str (formatDateToYMD ((prev_day ^^ Suc k) ?r)) \<in> ?D"
  proof (intro allI impI)
    fix k assume "k < n"
    with run have "m + Suc k \<in> K" by blast
    then have "ymd_of (days_before (m + Suc k) now) \<in> (\<lambda>k. ymd_of (days_before k now)) ` K"
      by (rule imageI)
    then have "ymd_of (days_before (m + Suc k) now) \<in> ?D" unfolding D .
    then show "Str (formatDateToYMD ((prev_day ^^ Suc k) ?r)) \<in> ?D"
      unfolding shift ymd_of_def .
  qed
  have st': "Str (formatDateToYMD ((prev_day ^^ Suc n) ?r)) \<notin> ?D"
  proof
    assume a: "Str (formatDateToYMD ((prev_day ^^ Suc n) ?r)) \<in> ?D"
    have c: "calendar_day (days_before (m + Suc n) now)" using n1000 by (intro cal) simp
    from a have "Str (formatDateToYMD (days_before (m + Suc n) now)) \<in> ?D" unfolding shift .
    from offs[OF c this] obtain k where k: "k \<in> K" "days_before (m + Suc n) now = days_before k now"
      by blast
    from k(1) K have "k \<le> 1000" by blast
    then have "k \<le> 1800" by simp
    moreover have "m + Suc n \<le> 1800" using n1000 by simp
    ultimately have "m + Suc n = k" using days_before_inj[OF clock _ _ k(2)] by blast
    with k(1) stop show False by simp
  qed
  have c0: "calendar_day (days_before 0 now)" by (intro cal) simp
  have c1: "calendar_day (days_before 1 now)" by (intro cal) simp
  have e0: "formatDateToYMD ?r = formatDateToYMD now \<longleftrightarrow> m = 0"
  proof
    assume "formatDateToYMD ?r = formatDateToYMD now"
    then have "formatDateToYMD ?r = formatDateToYMD (days_before 0 now)"
      by (simp only: format_today)
    from format_inj[OF rn r0 c0 this] have "days_before m now = days_before 0 now" .
    from days_before_inj[OF clock _ _ this] m1000 show "m = 0" by simp
  next
    assume "m = 0"
    then show "formatDateToYMD ?r = formatDateToYMD now" by (simp only: format_today)
  qed
  have e1: "formatDateToYMD ?r = formatDateToYMD (prev_day now) \<longleftrightarrow> m = 1"
  proof
    assume "formatDateToYMD ?r = formatDateToYMD (prev_day now)"
    then have "formatDateToYMD ?r = formatDateToYMD (days_before 1 now)"
      by (simp only: format_yesterday)
    from format_inj[OF rn r0 c1 this] have "days_before m now = days_before 1 now" .
    from days_before_inj[OF clock _ _ this] m1000 show "m = 1" by simp
  next
    assume "m = 1"
    then show "formatDateToYMD ?r = formatDateToYMD (prev_day now)"
      by (simp only: format_yesterday)
  qed
  have "calculateCurrentStreak rt now st =
           Returns (if formatDateToYMD ?r \<noteq> formatDateToYMD now \<and>
                       formatDateToYMD ?r \<noteq> formatDateToYMD (prev_day now)
                    then 0 else Suc n)"
    using rn ne pr r0 rin mx rn' st' by (rule streak_value)
  also have "\<dots> = Returns (if 1 < m then 0 else Suc n)"
    unfolding e0 e1 by (cases "1 < m") auto
  finally show ?thesis .
qed


text \<open>
  Claim C5 (streak boundary behaviour), as amended. The built-in \<open>Number\<close> reads decimal
  numerals, the current time is a valid date from 1970 on, and \<open>ymd_of c\<close> is the string
  that the entry form stores for the calendar day \<open>c\<close>. A store without entries has the
  streak 0. In a store whose entry dates are all such strings there is a most recent entry
  day \<open>r\<close> and a number \<open>n\<close> of consecutive days before \<open>r\<close> that each have an entry, the
  day after them having none, and the streak is 0 when \<open>r\<close> is neither today nor
  yesterday and \<open>1 + n\<close> otherwise. In particular the streak is 0 when the only entry date
  is two days ago, 1 when it is today, 3 when the entry dates are today, yesterday and the
  day before yesterday, and 1 when they are yesterday and three days ago.
\<close>

theorem current_streak_spec:
  assumes numerals: "\<forall>ds. ds \<noteq> [] \<and> list_all is_digit ds \<and> length ds \<le> 15 \<longrightarrow>
                        toNumber rt ds = Fin (real (digits_val ds))"
    and small: "\<forall>n<12. round_double rt (real n) = Fin (real n)"
    and clock: "clock_date now"
  shows "(entries st = [] \<longrightarrow> calculateCurrentStreak rt now st = Returns 0) \<and>
    (entries st \<noteq> [] \<and> (\<forall>e\<in>set (entries st). \<exists>c. calendar_day c \<and> date e = ymd_of c) \<longrightarrow>
       (\<exists>r n. calendar_day r \<and> ymd_of r \<in> date ` set (entries st) \<and>
          (\<forall>c. calendar_day c \<and> ymd_of c \<in> date ` set (entries st) \<longrightarrow>
               date_key (Inr c) \<le> date_key (Inr r)) \<and>
          (\<forall>k<n. ymd_of (days_before (Suc k) r) \<in> date ` set (entries st)) \<and>
          ymd_of (days_before (Suc n) r) \<notin> date ` set (entries st) \<and>
          calculateCurrentStreak rt now st =
            Returns (if r \<noteq> days_before 0 now \<and> r \<noteq> days_before 1 now then 0 else Suc n))) \<and>
    (date ` set (entries st) = {ymd_of (days_before 2 now)} \<longrightarrow>
       calculateCurrentStreak rt now st = Returns 0) \<and>
    (date ` set (entries st) = {ymd_of (days_before 0 now)} \<longrightarrow>
       calculateCurrentStreak rt now st = Returns 1) \<and>
    (date ` set (entries st) =
       {ymd_of (days_before 0 now), ymd_of (days_before 1 now), ymd_of (days_before 2 now)} \<longrightarrow>
       calculateCurrentStreak rt now st = Returns 3) \<and>
    (date ` set (entries st) = {ymd_of (days_before 1 now), ymd_of (days_before 3 now)} \<longrightarrow>
       calculateCurrentStreak rt now st = Returns 1)"
proof -
  have rn: "reads_numerals rt" unfolding reads_numerals_def using numerals small by blast
  have p0: "entries st = [] \<longrightarrow> calculateCurrentStreak rt now st = Returns 0"
    by (simp add: calculateCurrentStreak_def)
  have p1: "\<exists>r n. calendar_day r \<and> ymd_of r \<in> date ` set (entries st) \<and>
          (\<forall>c. calendar_day c \<and> ymd_of c \<in> date ` set (entries st) \<longrightarrow>
               date_key (Inr c) \<le> date_key (Inr r)) \<and>
          (\<forall>k<n. ymd_of (days_before (Suc k) r) \<in> date ` set (entries st)) \<and>
          ymd_of (days_before (Suc n) r) \<notin> date ` set (entries st) \<and>
          calculateCurrentStreak rt now st =
            Returns (if r \<noteq> days_before 0 now \<and> r \<noteq> days_before 1 now then 0 else Suc n)"
    if ne: "entries st \<noteq> []"
      and pr: "\<forall>e\<in>set (entries st). \<exists>c. calendar_day c \<and> date e = ymd_of c"
  proof -
    from streak_general[OF rn ne pr[unfolded ymd_of_def], of now] obtain r n where
      g: "calendar_day r" "Str (formatDateToYMD r) \<in> date ` set (entries st)"
         "\<forall>c. calendar_day c \<and> Str (formatDateToYMD c) \<in> date ` set (entries st) \<longrightarrow>
                  date_key (Inr c) \<le> date_key (Inr r)"
         "\<forall>k<n. Str (formatDateToYMD ((prev_day ^^ Suc k) r)) \<in> date ` set (entries st)"
         "Str (formatDateToYMD ((prev_day ^^ Suc n) r)) \<notin> date ` set (entries st)"
         "calculateCurrentStreak rt now st =
               Returns (if formatDateToYMD r \<noteq> formatDateToYMD now \<and>
                           formatDateToYMD r \<noteq> formatDateToYMD (prev_day now)
                        then 0 else Suc n)"
      by blast
    have db: "days_before k r = (prev_day ^^ k) r" for k
      by (simp only: days_before_def at_midnight_calendar[OF g(1)])
    have c0: "calendar_day (days_before 0 now)" using clock by (rule days_before_calendar) simp
    have c1: "calendar_day (days_before 1 now)" using clock by (rule days_before_calendar) simp
    have e0: "formatDateToYMD r = formatDateToYMD now \<longleftrightarrow> r = days_before 0 now"
    proof
      assume "formatDateToYMD r = formatDateToYMD now"
      then have "formatDateToYMD r = formatDateToYMD (days_before 0 now)"
        by (simp only: format_today)
      with rn g(1) c0 show "r = days_before 0 now" by (rule format_inj)
    next
      assume "r = days_before 0 now"
      then show "formatDateToYMD r = formatDateToYMD now" by (simp only: format_today)
    qed
    have e1: "formatDateToYMD r = formatDateToYMD (prev_day now) \<longleftrightarrow> r = days_before 1 now"
    proof
      assume "formatDateToYMD r = formatDateToYMD (prev_day now)"
      then have "formatDateToYMD r = formatDateToYMD (days_before 1 now)"
        by (simp only: format_yesterday)
      with rn g(1) c1 show "r = days_before 1 now" by (rule format_inj)
    next
      assume "r = days_before 1 now"
      then show "formatDateToYMD r = formatDateToYMD (prev_day now)"
        by (simp only: format_yesterday)
    qed
    have res: "calculateCurrentStreak rt now st =
            Returns (if r \<noteq> days_before 0 now \<and> r \<noteq> days_before 1 now then 0 else Suc n)"
      using g(6) unfolding e0 e1 .
    have g2: "ymd_of r \<in> date ` set (entries st)" using g(2) unfolding ymd_of_def .
    have g3: "\<forall>c. calendar_day c \<and> ymd_of c \<in> date ` set (entries st) \<longrightarrow>
               date_key (Inr c) \<le> date_key (Inr r)"
      using g(3) unfolding ymd_of_def .
    have g4: "\<forall>k<n. ymd_of (days_before (Suc k) r) \<in> date ` set (entries st)"
      using g(4) unfolding ymd_of_def db .
    have g5: "ymd_of (days_before (Suc n) r) \<notin> date ` set (entries st)"
      using g(5) unfolding ymd_of_def db .
    from g(1) g2 g3 g4 g5 res show ?thesis by blast
  qed
  have p2: "calculateCurrentStreak rt now st = Returns 0"
    if "date ` set (entries st) = {ymd_of (days_before 2 now)}"
  proof -
    have D: "date ` set (entries st) = (\<lambda>k. ymd_of (days_before k now)) ` {2}"
      using that by simp
    from streak_offsets[OF rn clock D, of 2 0] show ?thesis by simp
  qed
  have p3: "calculateCurrentStreak rt now st = Returns 1"
    if "date ` set (entries st) = {ymd_of (days_before 0 now)}"
  proof -
    have D: "date ` set (entries st) = (\<lambda>k. ymd_of (days_before k now)) ` {0}"
      using that by simp
    from streak_offsets[OF rn clock D, of 0 0] show ?thesis by simp
  qed
  have p4: "calculateCurrentStreak rt now st = Returns 3"
    if "date ` set (entries st) =
       {ymd_of (days_before 0 now), ymd_of (days_before 1 now), ymd_of (days_before 2 now)}"
  proof -
    have D: "date ` set (entries st) = (\<lambda>k. ymd_of (days_before k now)) ` {0, 1, 2}"
      using that by simp
    have run: "\<forall>i<2. 0 + Suc i \<in> {0, 1, 2::nat}"
    proof (intro allI impI)
      fix i :: nat assume "i < 2"
      then have "i = 0 \<or> i = 1" by auto
      then show "0 + Suc i \<in> {0, 1, 2::nat}" by auto
    qed
    from streak_offsets[OF rn clock D _ _ run, of ] show ?thesis by simp
  qed
  have p5: "calculateCurrentStreak rt now st = Returns 1"
    if "date ` set (entries st) = {ymd_of (days_before 1 now), ymd_of (days_before 3 now)}"
  proof -
    have D: "date ` set (entries st) = (\<lambda>k. ymd_of (days_before k now)) ` {1, 3}"
      using that by simp
    from streak_offsets[OF rn clock D, of 1 0] show ?thesis by simp
  qed
  from p0 p1 p2 p3 p4 p5 show ?thesis by blast
qed


lemma example_reads_numerals:
  "\<forall>ds. ds \<noteq> [] \<and> list_all is_digit ds \<and> length ds \<le> 15 \<longrightarrow>
     toNumber example_builtins ds = Fin (real (digits_val ds))"
  by (simp add: example_builtins_def example_toNumber_def)

lemma example_days:
  "days_before 0 example_now = LocalDate 2024 0 10 0"
  "days_before 1 example_now = LocalDate 2024 0 9 0"
  "days_before 2 example_now = LocalDate 2024 0 8 0"
proof -
  show a: "days_before 0 example_now = LocalDate 2024 0 10 0"
    by (simp add: days_before_def example_now_def)
  have "days_before (Suc 0) example_now = LocalDate 2024 0 9 0"
    unfolding days_before_Suc a by (simp add: prev_day_def)
  then show b: "days_before 1 example_now = LocalDate 2024 0 9 0" by simp
  have "days_before (Suc 1) example_now = LocalDate 2024 0 8 0"
    unfolding days_before_Suc b by (simp add: prev_day_def)
  then show "days_before 2 example_now = LocalDate 2024 0 8 0"
    by (simp only: Suc_1)
qed

lemma example_day_strings:
  "ymd_of (LocalDate 2024 0 10 0) = Str ''2024-01-10''"
  "ymd_of (LocalDate 2024 0 9 0) = Str ''2024-01-09''"
  "ymd_of (LocalDate 2024 0 8 0) = Str ''2024-01-08''"
  by (simp add: ymd_of_def, code_simp)+

theorem current_streak_spec_witness:
  "clock_date example_now \<and>
   date ` set (entries example_streak_state) =
     {ymd_of (days_before 0 example_now), ymd_of (days_before 1 example_now),
      ymd_of (days_before 2 example_now)} \<and>
   calculateCurrentStreak example_builtins example_now example_streak_state = Returns 3 \<and>
   date ` set (entries (example_state\<lparr>entries := [example_other_entry]\<rparr>)) =
     {ymd_of (days_before 2 example_now)} \<and>
   calculateCurrentStreak example_builtins example_now
     (example_state\<lparr>entries := [example_other_entry]\<rparr>) = Returns 0"
proof -
  have h1: "\<forall>ds. ds \<noteq> [] \<and> list_all is_digit ds \<and> length ds \<le> 15 \<longrightarrow>
     toNumber example_builtins ds = Fin (real (digits_val ds))"
    by (rule example_reads_numerals)
  have h2: "\<forall>n<12. round_double example_builtins (real n) = Fin (real n)"
    by (simp add: example_builtins_def)
  have h3: "clock_date example_now"
    by (simp add: example_now_def days_in_month_def)
  have d3: "date ` set (entries example_streak_state) =
     {ymd_of (days_before 0 example_now), ymd_of (days_before 1 example_now),
      ymd_of (days_before 2 example_now)}"
    unfolding example_days example_day_strings
    by (auto simp: example_streak_state_def example_other_entry_def)
  have d1: "date ` set (entries (example_state\<lparr>entries := [example_other_entry]\<rparr>)) =
     {ymd_of (days_before 2 example_now)}"
    unfolding example_days example_day_strings
    by (simp add: example_other_entry_def)
  note t = current_streak_spec[where rt = example_builtins and now = example_now, OF h1 h2 h3]
  have a: "calculateCurrentStreak example_builtins example_now example_streak_state = Returns 3"
    using t[where st = example_streak_state] d3 by blast
  have b: "calculateCurrentStreak example_builtins example_now
     (example_state\<lparr>entries := [example_other_entry]\<rparr>) = Returns 0"
    using t[where st = "example_state\<lparr>entries := [example_other_entry]\<rparr>"] d1 by blast
  from h3 d3 a d1 b show ?thesis by blast
qed

text \<open>
  Without the condition on the entry dates the statement fails on a store that the restore
  function produces: with the two entries restored from the backup whose dates are the
  numbers 5 and 6, neither of them today or yesterday, \<open>calculateCurrentStreak\<close> throws
  a TypeError instead of returning 0.
\<close>

theorem streak_numeric_dates_counterexample:
  "map date (entries (fst (restoreFullBackupJsonFromText example_parse rev example_builtins
       ''numeric dates'' (example_state\<lparr>entries := []\<rparr>)))) = [Num (Fin 6), Num (Fin 5)] \<and>
   calculateCurrentStreak example_builtins example_now
     (fst (restoreFullBackupJsonFromText example_parse rev example_builtins
        ''numeric dates'' (example_state\<lparr>entries := []\<rparr>))) = Throws TypeError"
proof -
  let ?st = "fst (restoreFullBackupJsonFromText example_parse rev example_builtins
       ''numeric dates'' (example_state\<lparr>entries := []\<rparr>))"
  have es: "map date (entries ?st) = [Num (Fin 6), Num (Fin 5)]"
    by (simp add: numeric_dates_restored)
  have ne: "entries ?st \<noteq> []" by (simp add: numeric_dates_restored)
  have "calculateCurrentStreak example_builtins example_now ?st = Throws TypeError"
    unfolding calculateCurrentStreak_def es using ne
    by (simp add: new_Set_def set_add_def sort_by_date_def dateFromYMD_def)
  with es show ?thesis by blast
qed

end
